theory Spec2Isabelle
  imports Main "HOL-Library.AList"
begin

section \<open>Errors raised by the build script\<close>

text \<open>
  Every \<^verbatim>\<open>throw\<close> of \<^verbatim>\<open>scripts/Compiler.ts\<close> and every runtime failure of the
  calls it makes is a value of this type.
\<close>

datatype error =
    VersionNotFound      \<comment> \<open>\<^verbatim>\<open>Error('Could not find Solidity version in source')\<close>\<close>
  | NoPathInMessage      \<comment> \<open>\<^verbatim>\<open>Error('Could not find a path in error message')\<close>\<close>
  | ModuleNotFound string \<comment> \<open>\<^verbatim>\<open>require(solcBinPath)\<close> found no module at the path\<close>
  | TypeError            \<comment> \<open>a property read on \<^verbatim>\<open>undefined\<close> or \<^verbatim>\<open>null\<close>\<close>
  | SyntaxError          \<comment> \<open>\<^verbatim>\<open>JSON.parse\<close> of the backend's interface string failed\<close>
  | WriteFailed          \<comment> \<open>\<^verbatim>\<open>writeFileAsync\<close> rejected\<close>

section \<open>parseSolidityVersion\<close>

text \<open>
  The source matches
  \<^verbatim>\<open>/(?:solidity\s\^?)([0-9]{1,2}[.][0-9]{1,2}[.][0-9]{1,2})/\<close>
  against the text and returns group 1. Strings are lists of code units; the model covers
  code units below 256, where \<^verbatim>\<open>\s\<close> is TAB, LF, VT, FF, CR, SPACE and NBSP.
\<close>

definition is_digit :: "char \<Rightarrow> bool" where
  "is_digit c = (c \<in> set ''0123456789'')"

definition is_space :: "char \<Rightarrow> bool" where
  "is_space c = (c \<in> set [CHR 0x09, CHR 0x0A, CHR 0x0B, CHR 0x0C, CHR 0x0D, CHR 0x20, CHR 0xA0])"

text \<open>
  \<^verbatim>\<open>[0-9]{1,2}\<close> is greedy: the alternatives at the head of \<open>s\<close>, two digits ahead of
  one, each with the text left over.
\<close>

fun digits12 :: "string \<Rightarrow> (string \<times> string) list" where
  "digits12 (a # b # s) =
     (if is_digit a then (if is_digit b then [([a, b], s)] else []) @ [([a], b # s)] else [])"
| "digits12 [a] = (if is_digit a then [([a], [])] else [])"
| "digits12 [] = []"

text \<open>\<^verbatim>\<open>[.]\<close>: the text that follows one full stop.\<close>

fun dot :: "string \<Rightarrow> string list" where
  "dot (c # s) = (if c = CHR ''.'' then [s] else [])"
| "dot [] = []"

text \<open>\<^verbatim>\<open>[.][0-9]{1,2}\<close>: a full stop, then the digit alternatives.\<close>

definition dot_digits :: "string \<Rightarrow> (string \<times> string) list" where
  "dot_digits s = concat (map digits12 (dot s))"

text \<open>
  Group 1 at the head of \<open>s\<close>: every way the three components can be read, in the
  priority order of the backtracking search, which takes the first.
\<close>

definition version_alternatives :: "string \<Rightarrow> string list" where
  "version_alternatives s =
     [a @ ''.'' @ b @ ''.'' @ c. (a, s1) \<leftarrow> digits12 s, (b, s2) \<leftarrow> dot_digits s1,
                                   (c, s3) \<leftarrow> dot_digits s2]"

definition match_version :: "string \<Rightarrow> string option" where
  "match_version s = (case version_alternatives s of [] \<Rightarrow> None | v # _ \<Rightarrow> Some v)"

fun strip_prefix :: "string \<Rightarrow> string \<Rightarrow> string option" where
  "strip_prefix [] s = Some s"
| "strip_prefix (p # ps) [] = None"
| "strip_prefix (p # ps) (c # s) = (if p = c then strip_prefix ps s else None)"

text \<open>
  The whole pattern at the head of \<open>s\<close>: the word, one \<^verbatim>\<open>\s\<close>, then \<^verbatim>\<open>\^?\<close>
  (greedy: with the caret consumed first, then without), then group 1.
\<close>

definition match_here :: "string \<Rightarrow> string option" where
  "match_here s =
     (case strip_prefix ''solidity'' s of
        None \<Rightarrow> None
      | Some [] \<Rightarrow> None
      | Some (w # r) \<Rightarrow>
          if is_space w then
            (case (case r of [] \<Rightarrow> None
                   | c # r' \<Rightarrow> if c = CHR ''^'' then match_version r' else None) of
               Some v \<Rightarrow> Some v
             | None \<Rightarrow> match_version r)
          else None)"

text \<open>\<^verbatim>\<open>source.match(re)\<close> without the \<^verbatim>\<open>g\<close> flag: the leftmost start that matches.\<close>

fun version_search :: "string \<Rightarrow> string option" where
  "version_search [] = match_here []"
| "version_search (c # s) =
     (case match_here (c # s) of Some v \<Rightarrow> Some v | None \<Rightarrow> version_search s)"

text \<open>
  \<^verbatim>\<open>null[1]\<close> raises inside the \<^verbatim>\<open>try\<close>; the \<^verbatim>\<open>catch\<close> rethrows the fixed
  error.
\<close>

definition parseSolidityVersion :: "string \<Rightarrow> error + string" where
  "parseSolidityVersion source =
     (case version_search source of None \<Rightarrow> Inl VersionNotFound | Some v \<Rightarrow> Inr v)"

section \<open>Library functions the script calls\<close>

text \<open>
  \<^verbatim>\<open>path.basename(p)\<close> (POSIX): trailing separators are ignored, and the result is what
  follows the last separator left.
\<close>

definition basename :: "string \<Rightarrow> string" where
  "basename p =
     rev (takeWhile (\<lambda>c. c \<noteq> CHR ''/'') (dropWhile (\<lambda>c. c = CHR ''/'') (rev p)))"

text \<open>
  \<^verbatim>\<open>path.basename(p, ext)\<close>: the base name without the suffix \<open>ext\<close>, unless the base
  name is the suffix itself; a path equal to \<open>ext\<close> gives the empty string.
\<close>

definition basename_ext :: "string \<Rightarrow> string \<Rightarrow> string" where
  "basename_ext p ext =
     (let b = basename p in
      if p = ext then []
      else if ext \<noteq> [] \<and> length ext < length b \<and> drop (length b - length ext) b = ext
      then take (length b - length ext) b
      else b)"

text \<open>
  A property read \<^verbatim>\<open>obj[key]\<close> on an object literal finds an own property, or a member
  inherited from \<^verbatim>\<open>Object.prototype\<close>, or \<^verbatim>\<open>undefined\<close>.
\<close>

definition object_prototype_names :: "string list" where
  "object_prototype_names =
     [''constructor'', ''hasOwnProperty'', ''isPrototypeOf'', ''propertyIsEnumerable'',
      ''toLocaleString'', ''toString'', ''valueOf'', ''__proto__'', ''__defineGetter__'',
      ''__defineSetter__'', ''__lookupGetter__'', ''__lookupSetter__'']"

datatype 'a js_prop = Undefined | Own 'a | Inherited string

definition js_get :: "(string \<times> 'a) list \<Rightarrow> string \<Rightarrow> 'a js_prop" where
  "js_get obj key =
     (case map_of obj key of
        Some v \<Rightarrow> Own v
      | None \<Rightarrow> if key \<in> set object_prototype_names then Inherited key else Undefined)"

text \<open>
  \<^verbatim>\<open>str.replace(pattern, replacement)\<close> with a string pattern replaces the first occurrence
  of the pattern. In the replacement \<^verbatim>\<open>$$\<close> stands for a dollar sign, \<^verbatim>\<open>$&\<close> for the
  matched text, \<^verbatim>\<open>$`\<close> for the text in front of it and \<^verbatim>\<open>$'\<close> for the text behind it;
  a string pattern has no groups, so any other use of \<^verbatim>\<open>$\<close> is literal.
\<close>

fun find_first :: "string \<Rightarrow> string \<Rightarrow> (string \<times> string) option" where
  "find_first p [] = (if p = [] then Some ([], []) else None)"
| "find_first p (c # s) =
     (case strip_prefix p (c # s) of
        Some a \<Rightarrow> Some ([], a)
      | None \<Rightarrow> map_option (\<lambda>(b, a). (c # b, a)) (find_first p s))"

fun expand :: "string \<Rightarrow> string \<Rightarrow> string \<Rightarrow> string \<Rightarrow> string" where
  "expand matched preceding following (x # y # t) =
     (if x = CHR ''$'' then
        (if y = CHR ''$'' then CHR ''$'' # expand matched preceding following t
         else if y = CHR ''&'' then matched @ expand matched preceding following t
         else if y = CHR 0x60 then preceding @ expand matched preceding following t
         else if y = CHR 0x27 then following @ expand matched preceding following t
         else x # expand matched preceding following (y # t))
      else x # expand matched preceding following (y # t))"
| "expand matched preceding following [x] = [x]"
| "expand matched preceding following [] = []"

definition replace_first :: "string \<Rightarrow> string \<Rightarrow> string \<Rightarrow> string" where
  "replace_first str pat rep =
     (case find_first pat str of
        None \<Rightarrow> str
      | Some (preceding, following) \<Rightarrow> preceding @ expand pat preceding following rep @ following)"

section \<open>getNormalizedErrMsg\<close>

text \<open>
  \<^verbatim>\<open>errMsg.match(/(.*\.sol)/)[0]\<close>. A full stop of the pattern matches any character but a
  line terminator (LF and CR among the code units below 256). \<^verbatim>\<open>.*\<close> is greedy: at each
  character it first tries to take it and match the rest, and only then tries \<^verbatim>\<open>\.sol\<close>
  where it stands.
\<close>

definition line_terminator :: "char \<Rightarrow> bool" where
  "line_terminator c = (c = CHR 0x0A \<or> c = CHR 0x0D)"

fun star_dot_sol :: "string \<Rightarrow> string option" where
  "star_dot_sol [] = None"
| "star_dot_sol (c # s) =
     (case (if line_terminator c then None else star_dot_sol s) of
        Some m \<Rightarrow> Some (c # m)
      | None \<Rightarrow> (case strip_prefix ''.sol'' (c # s) of Some _ \<Rightarrow> Some ''.sol'' | None \<Rightarrow> None))"

fun sol_search :: "string \<Rightarrow> string option" where
  "sol_search [] = star_dot_sol []"
| "sol_search (c # s) =
     (case star_dot_sol (c # s) of Some m \<Rightarrow> Some m | None \<Rightarrow> sol_search s)"

text \<open>
  \<^verbatim>\<open>null[0]\<close> raises inside the \<^verbatim>\<open>try\<close>; the \<^verbatim>\<open>catch\<close> rethrows the fixed
  error.
\<close>

definition getNormalizedErrMsg :: "string \<Rightarrow> error + string" where
  "getNormalizedErrMsg errMsg =
     (case sol_search errMsg of
        None \<Rightarrow> Inl NoPathInMessage
      | Some errPath \<Rightarrow>
          (let baseContract = basename errPath
           in Inr (replace_first errMsg errPath baseContract)))"

section \<open>createFindImports\<close>

text \<open>
  \<open>ContractSources\<close> is an object from base names to source texts, here the list of its own
  properties. The callback reads \<^verbatim>\<open>sources[path.basename(importPath)]\<close> and wraps what it
  finds; it writes nothing.
\<close>

type_synonym ContractSources = "(string \<times> string) list"

record ImportContents =
  contents :: "string js_prop"

definition createFindImports :: "ContractSources \<Rightarrow> string \<Rightarrow> ImportContents" where
  "createFindImports sources importPath =
     (let contractBaseName = basename importPath;
          source = js_get sources contractBaseName
      in \<lparr>contents = source\<rparr>)"

section \<open>JSON values and the reads the script makes on them\<close>

text \<open>
  What \<^verbatim>\<open>JSON.parse\<close> returns. Numbers are modelled as integers. An object is the list of
  its own properties; only look-ups are made on it, so the order of the list carries no
  meaning.
\<close>

datatype json =
    JNull
  | JBool bool
  | JNum int
  | JStr string
  | JArr "json list"
  | JObj "(string \<times> json) list"

text \<open>
  A property key made from a number: \<^verbatim>\<open>obj[this.networkId]\<close> converts the number to its
  decimal text (network identifiers are non-negative integers below \<open>2^53\<close>).
\<close>

definition digit_char :: "nat \<Rightarrow> char" where
  "digit_char d = ''0123456789'' ! d"

fun show_nat :: "nat \<Rightarrow> string" where
  "show_nat n = (if n < 10 then [digit_char n] else show_nat (n div 10) @ [digit_char (n mod 10)])"

declare show_nat.simps [simp del]

text \<open>
  \<^verbatim>\<open>v.name\<close> for one of the names \<^verbatim>\<open>networks\<close>, \<^verbatim>\<open>keccak256\<close> and
  \<^verbatim>\<open>optimizer_enabled\<close>, which no prototype holds: a read on \<^verbatim>\<open>undefined\<close> or
  \<^verbatim>\<open>null\<close> raises, an object gives its own property, every other value gives
  \<^verbatim>\<open>undefined\<close> (\<open>None\<close>).
\<close>

fun get_field :: "json option \<Rightarrow> string \<Rightarrow> error + json option" where
  "get_field None name = Inl TypeError"
| "get_field (Some JNull) name = Inl TypeError"
| "get_field (Some (JObj kvs)) name = Inr (map_of kvs name)"
| "get_field (Some v) name = Inr None"

text \<open>
  \<^verbatim>\<open>v[n]\<close> for a number \<open>n\<close>: an object is read at the decimal text of \<open>n\<close>, an array
  and a string at the index \<open>n\<close>.
\<close>

fun get_index :: "json option \<Rightarrow> nat \<Rightarrow> error + json option" where
  "get_index None n = Inl TypeError"
| "get_index (Some JNull) n = Inl TypeError"
| "get_index (Some (JObj kvs)) n = Inr (map_of kvs (show_nat n))"
| "get_index (Some (JArr xs)) n = Inr (if n < length xs then Some (xs ! n) else None)"
| "get_index (Some (JStr s)) n = Inr (if n < length s then Some (JStr [s ! n]) else None)"
| "get_index (Some v) n = Inr None"

text \<open>
  The own enumerable properties of a value: the properties of an object, the indexed
  elements of an array or a string, none for \<^verbatim>\<open>null\<close>, a number or a boolean.
\<close>

fun own_fields :: "json \<Rightarrow> (string \<times> json) list" where
  "own_fields (JObj kvs) = kvs"
| "own_fields (JArr xs) = zip (map show_nat [0..<length xs]) xs"
| "own_fields (JStr s) = zip (map show_nat [0..<length s]) (map (\<lambda>c. JStr [c]) s)"
| "own_fields v = []"

text \<open>
  The own properties \<^verbatim>\<open>{...v}\<close> gives to an object literal. The script is compiled to
  \<^verbatim>\<open>__assign({}, v, ...)\<close>, which assigns each own enumerable property of \<open>v\<close> to the new
  object; \<^verbatim>\<open>undefined\<close> gives none. An assignment to \<^verbatim>\<open>__proto__\<close> goes to the setter of
  \<^verbatim>\<open>Object.prototype\<close> and makes no own property, so a property of that name is not
  copied.
\<close>

fun spread :: "json option \<Rightarrow> (string \<times> json) list" where
  "spread None = []"
| "spread (Some v) = filter (\<lambda>kv. fst kv \<noteq> ''__proto__'') (own_fields v)"

text \<open>
  \<^verbatim>\<open>v !== s\<close> for a string \<open>s\<close> and \<^verbatim>\<open>v !== n\<close> for a number \<open>n\<close>: strict
  inequality holds unless \<open>v\<close> is that very primitive value.
\<close>

definition strict_ne_string :: "json option \<Rightarrow> string \<Rightarrow> bool" where
  "strict_ne_string v s = (v \<noteq> Some (JStr s))"

definition strict_ne_number :: "json option \<Rightarrow> int \<Rightarrow> bool" where
  "strict_ne_number v n = (v \<noteq> Some (JNum n))"

section \<open>The compiler class\<close>

subsection \<open>Options, collaborators and state\<close>

text \<open>
  What \<^verbatim>\<open>solcInstance.compile\<close> returns: the diagnostics, when there are any, and for each
  \<^verbatim>\<open><unit>:<contract>\<close> key the interface and the bytecode. \<open>interface\<close> is the
  interface text as \<^verbatim>\<open>JSON.parse\<close> reads it, \<open>None\<close> when it does not parse.
\<close>

record contract_output =
  interface :: "json option"
  bytecode :: string

record compiled_output =
  compile_errors :: "string list option"
  contracts :: "(string \<times> contract_output) list"

text \<open>
  A backend takes the one-entry \<^verbatim>\<open>sources\<close> object, the optimizer flag and the import
  callback.
\<close>

type_synonym backend = "(string \<times> string) \<Rightarrow> int \<Rightarrow> (string \<Rightarrow> ImportContents) \<Rightarrow> compiled_output"

text \<open>
  The fields of the class and what the script imports. \<open>binPaths\<close> is the table of
  \<^verbatim>\<open>./solc/bin_paths\<close>; \<open>solc_bin p\<close> is the backend \<^verbatim>\<open>solc.setupMethods(require(p))\<close>
  gives, \<open>None\<close> when no module stands at \<open>p\<close>; \<open>sha3_hex\<close> is
  \<^verbatim>\<open>ethUtil.sha3(source).toString('hex')\<close>; \<open>date_now\<close> is the clock read while a unit's
  data is built; \<open>write_ok p\<close> says whether \<^verbatim>\<open>writeFileAsync\<close> fulfils at \<open>p\<close>.
\<close>

record env =
  networkId :: nat
  optimizerEnabled :: int
  artifactsDir :: string
  binPaths :: "(string \<times> string) list"
  solc_bin :: "string \<Rightarrow> backend option"
  sha3_hex :: "string \<Rightarrow> string"
  date_now :: "string \<Rightarrow> int"
  write_ok :: "string \<Rightarrow> bool"

text \<open>
  An artifact file, as \<^verbatim>\<open>readFileAsync\<close> followed by \<^verbatim>\<open>JSON.parse\<close> sees it; a path with
  no file is \<open>None\<close> in the store. A file the script writes holds
  \<^verbatim>\<open>JSON.stringify(newArtifact)\<close>, which parses back to \<open>newArtifact\<close>.
\<close>

datatype artifact_file = Unparseable | Parsed json

datatype event =
    LogCreatingDir
  | LogCompiling string
  | LogDiagnostic string
  | LogSaved string

text \<open>
  One call of the anonymous \<^verbatim>\<open>async\<close> function of \<^verbatim>\<open>compileAll\<close>: suspended at
  \<^verbatim>\<open>await readFileAsync\<close>, suspended at \<^verbatim>\<open>await writeFileAsync\<close> (with the path and the
  artifact being written), fulfilled, or rejected.
\<close>

datatype task =
    AwaitRead string string
  | AwaitWrite string string json
  | Fulfilled
  | Rejected error

text \<open>
  The store of artifact files, the \<^verbatim>\<open>errors\<close> object of the running \<^verbatim>\<open>compileAll\<close> (its
  own keys), the lines given to \<^verbatim>\<open>consoleLog\<close>, the units the backend was called for, and
  the unit tasks.
\<close>

record state =
  artifactsDirExists :: bool
  files :: "string \<Rightarrow> artifact_file option"
  errors :: "string list"
  log :: "event list"
  backend_calls :: "string list"
  tasks :: "task list"

subsection \<open>The staleness decision (the \<^verbatim>\<open>try\<close> block)\<close>

text \<open>
  The last three operands of the decision, on the entry read for the network:
  \<^verbatim>\<open>_.isUndefined(oldNetwork) || oldNetwork.keccak256 !== sourceHash ||
  oldNetwork.optimizer_enabled !== this.optimizerEnabled\<close>. The reads raise on \<^verbatim>\<open>null\<close>.
\<close>

definition entry_stale :: "json option \<Rightarrow> string \<Rightarrow> int \<Rightarrow> error + bool" where
  "entry_stale oldNetwork sourceHash opt =
     (if oldNetwork = None then Inr True
      else case get_field oldNetwork ''keccak256'' of
        Inl e \<Rightarrow> Inl e
      | Inr k \<Rightarrow>
          if strict_ne_string k sourceHash then Inr True
          else (case get_field oldNetwork ''optimizer_enabled'' of
                  Inl e \<Rightarrow> Inl e
                | Inr f \<Rightarrow> Inr (strict_ne_number f opt)))"

text \<open>
  The variables the \<^verbatim>\<open>try\<close> block leaves behind. Each is assigned in turn, so a statement
  that raises leaves the later ones \<^verbatim>\<open>undefined\<close>; the \<^verbatim>\<open>catch\<close> sets
  \<^verbatim>\<open>shouldCompile\<close>.
\<close>

record prior =
  currentArtifactString :: bool
  currentArtifact :: "json option"
  oldNetworks :: "json option"
  shouldCompile :: bool

definition read_prior :: "artifact_file option \<Rightarrow> nat \<Rightarrow> string \<Rightarrow> int \<Rightarrow> prior" where
  "read_prior f nid sourceHash opt =
     (case f of
        None \<Rightarrow>
          \<lparr>currentArtifactString = False, currentArtifact = None, oldNetworks = None,
           shouldCompile = True\<rparr>
      | Some Unparseable \<Rightarrow>
          \<lparr>currentArtifactString = True, currentArtifact = None, oldNetworks = None,
           shouldCompile = True\<rparr>
      | Some (Parsed a) \<Rightarrow>
          (case get_field (Some a) ''networks'' of
             Inl e \<Rightarrow>
               \<lparr>currentArtifactString = True, currentArtifact = Some a, oldNetworks = None,
                shouldCompile = True\<rparr>
           | Inr nets \<Rightarrow>
               (case get_index nets nid of
                  Inl e \<Rightarrow>
                    \<lparr>currentArtifactString = True, currentArtifact = Some a, oldNetworks = nets,
                     shouldCompile = True\<rparr>
                | Inr oldNetwork \<Rightarrow>
                    \<lparr>currentArtifactString = True, currentArtifact = Some a, oldNetworks = nets,
                     shouldCompile =
                       (case entry_stale oldNetwork sourceHash opt of
                          Inl e \<Rightarrow> True
                        | Inr b \<Rightarrow> b)\<rparr>)))"

subsection \<open>Compiling one unit\<close>

text \<open>
  \<^verbatim>\<open>binPaths[solcVersion]\<close>, the path built from it (an absent entry prints as
  \<^verbatim>\<open>undefined\<close>), and \<^verbatim>\<open>require\<close> of that path.
\<close>

definition solcBinPath :: "env \<Rightarrow> string \<Rightarrow> string" where
  "solcBinPath e solcVersion =
     ''./solc/solc_bin/'' @
       (case map_of (binPaths e) solcVersion of None \<Rightarrow> ''undefined'' | Some full \<Rightarrow> full)"

definition selectBackend :: "env \<Rightarrow> string \<Rightarrow> error + backend" where
  "selectBackend e solcVersion =
     (case solc_bin e (solcBinPath e solcVersion) of
        None \<Rightarrow> Inl (ModuleNotFound (solcBinPath e solcVersion))
      | Some b \<Rightarrow> Inr b)"

text \<open>
  The loop over \<^verbatim>\<open>compiled.errors\<close>: a message is logged, and recorded in \<^verbatim>\<open>errors\<close>,
  when \<^verbatim>\<open>errors[normalizedErrMsg]\<close> is \<^verbatim>\<open>undefined\<close>. A message with no path raises out of
  the loop; what was logged stays logged.
\<close>

fun report_errors :: "string list \<Rightarrow> state \<Rightarrow> error option \<times> state" where
  "report_errors [] st = (None, st)"
| "report_errors (errMsg # rest) st =
     (case getNormalizedErrMsg errMsg of
        Inl e \<Rightarrow> (Some e, st)
      | Inr normalizedErrMsg \<Rightarrow>
          report_errors rest
            (if js_get (map (\<lambda>k. (k, True)) (errors st)) normalizedErrMsg = Undefined
             then st\<lparr>errors := errors st @ [normalizedErrMsg],
                     log := log st @ [LogDiagnostic normalizedErrMsg]\<rparr>
             else st))"

definition contractData :: "string \<Rightarrow> string \<Rightarrow> int \<Rightarrow> json \<Rightarrow> string \<Rightarrow> int \<Rightarrow> json" where
  "contractData solcVersion sourceHash opt abi unlinked_binary updated_at =
     JObj [(''solc_version'', JStr solcVersion), (''keccak256'', JStr sourceHash),
           (''optimizer_enabled'', JNum opt), (''abi'', abi),
           (''unlinked_binary'', JStr unlinked_binary), (''updated_at'', JNum updated_at)]"

text \<open>
  \<^verbatim>\<open>newArtifact\<close>: with a file read, the old artifact spread and \<^verbatim>\<open>networks\<close> set to the
  old networks spread with the entry of this network set; with no file read, a new object.
\<close>

definition newArtifact :: "prior \<Rightarrow> string \<Rightarrow> nat \<Rightarrow> json \<Rightarrow> json" where
  "newArtifact pr contractName nid cd =
     (if currentArtifactString pr then
        JObj (AList.update ''networks''
                (JObj (AList.update (show_nat nid) cd (spread (oldNetworks pr))))
                (spread (currentArtifact pr)))
      else
        JObj [(''contract_name'', JStr contractName),
              (''networks'', JObj [(show_nat nid, cd)])])"

text \<open>
  The body of \<^verbatim>\<open>if (shouldCompile)\<close> up to the call of \<^verbatim>\<open>writeFileAsync\<close>: the artifact
  to write, or the error raised, and the state left.
\<close>

definition compile_unit ::
  "env \<Rightarrow> ContractSources \<Rightarrow> string \<Rightarrow> string \<Rightarrow> prior \<Rightarrow> state \<Rightarrow> (error + json) \<times> state" where
  "compile_unit e sources contractBaseName source pr st =
     (let contractName = basename_ext contractBaseName ''.sol'';
          sourceHash = ''0x'' @ sha3_hex e source
      in case parseSolidityVersion source of
           Inl err \<Rightarrow> (Inl err, st)
         | Inr solcVersion \<Rightarrow>
             (case selectBackend e solcVersion of
                Inl err \<Rightarrow> (Inl err, st)
              | Inr solcInstance \<Rightarrow>
                  (let st1 = st\<lparr>log := log st @ [LogCompiling contractBaseName],
                                 backend_calls := backend_calls st @ [contractBaseName]\<rparr>;
                       compiled = solcInstance (contractBaseName, source) (optimizerEnabled e)
                                    (createFindImports sources);
                       (raised, st2) =
                         (case compile_errors compiled of
                            None \<Rightarrow> (None, st1)
                          | Some msgs \<Rightarrow> report_errors msgs st1)
                   in case raised of
                        Some err \<Rightarrow> (Inl err, st2)
                      | None \<Rightarrow>
                          (case js_get (contracts compiled) (contractBaseName @ '':'' @ contractName) of
                             Own c \<Rightarrow>
                               (case interface c of
                                  None \<Rightarrow> (Inl SyntaxError, st2)
                                | Some abi \<Rightarrow>
                                    (Inr (newArtifact pr contractName (networkId e)
                                            (contractData solcVersion sourceHash (optimizerEnabled e)
                                               abi (''0x'' @ bytecode c) (date_now e contractBaseName))),
                                     st2))
                           | Undefined \<Rightarrow> (Inl TypeError, st2)
                           | Inherited x \<Rightarrow> (Inl SyntaxError, st2)))))"

subsection \<open>The unit tasks and the event loop\<close>

definition currentArtifactPath :: "env \<Rightarrow> string \<Rightarrow> string" where
  "currentArtifactPath e contractBaseName =
     artifactsDir e @ ''/'' @ basename_ext contractBaseName ''.sol'' @ ''.json''"

text \<open>
  A suspended task goes on when its file operation completes. After the read: the decision,
  and either nothing more (not stale), or the compilation up to the call of
  \<^verbatim>\<open>writeFileAsync\<close>. After the write: the file holds the artifact and the task logs that it
  is saved; a failed write rejects the task.
\<close>

fun resume :: "env \<Rightarrow> ContractSources \<Rightarrow> task \<Rightarrow> state \<Rightarrow> task \<times> state" where
  "resume e sources (AwaitRead contractBaseName source) st =
     (let pr = read_prior (files st (currentArtifactPath e contractBaseName)) (networkId e)
                 (''0x'' @ sha3_hex e source) (optimizerEnabled e)
      in if shouldCompile pr then
           (case compile_unit e sources contractBaseName source pr st of
              (Inl err, st') \<Rightarrow> (Rejected err, st')
            | (Inr artifact, st') \<Rightarrow>
                (AwaitWrite contractBaseName (currentArtifactPath e contractBaseName) artifact, st'))
         else (Fulfilled, st))"
| "resume e sources (AwaitWrite contractBaseName path artifact) st =
     (if write_ok e path then
        (Fulfilled, st\<lparr>files := (files st)(path \<mapsto> Parsed artifact),
                        log := log st @ [LogSaved contractBaseName]\<rparr>)
      else (Rejected WriteFailed, st))"
| "resume e sources Fulfilled st = (Fulfilled, st)"
| "resume e sources (Rejected err) st = (Rejected err, st)"

text \<open>The file operation of task \<open>i\<close> completes and the task goes on.\<close>

definition step :: "env \<Rightarrow> ContractSources \<Rightarrow> nat \<Rightarrow> state \<Rightarrow> state" where
  "step e sources i st =
     (if i < length (tasks st) then
        (case resume e sources (tasks st ! i) st of
           (t, st') \<Rightarrow> st'\<lparr>tasks := (tasks st')[i := t]\<rparr>)
      else st)"

text \<open>
  The event loop: file operations complete in some order, given as a list of task numbers.
  The promise of a rejected task was dropped by \<^verbatim>\<open>_.each\<close> and has no handler; the loop is
  that of a host that goes on after an unhandled rejection, resuming whichever task the list
  names next.
\<close>

fun run_schedule :: "env \<Rightarrow> ContractSources \<Rightarrow> nat list \<Rightarrow> state \<Rightarrow> state" where
  "run_schedule e sources [] st = st"
| "run_schedule e sources (i # sched) st = run_schedule e sources sched (step e sources i st)"

text \<open>
  \<^verbatim>\<open>compileAll\<close>, up to the point where its promise is fulfilled. \<open>sources\<close> is what
  \<^verbatim>\<open>getContractSources\<close> returned. \<^verbatim>\<open>_.each\<close> calls the \<^verbatim>\<open>async\<close> function once for each
  base name; each call runs to its first \<^verbatim>\<open>await\<close> and returns a promise that \<^verbatim>\<open>_.each\<close>
  drops. The function then returns.
\<close>

definition compileAll :: "env \<Rightarrow> ContractSources \<Rightarrow> state \<Rightarrow> state" where
  "compileAll e sources st =
     (let st1 = (if artifactsDirExists st then st
                 else st\<lparr>artifactsDirExists := True, log := log st @ [LogCreatingDir]\<rparr>)
      in st1\<lparr>errors := [],
              tasks := map (\<lambda>(contractBaseName, source). AwaitRead contractBaseName source) sources\<rparr>)"

text \<open>A task is settled when its promise is fulfilled or rejected.\<close>

fun settled :: "task \<Rightarrow> bool" where
  "settled Fulfilled = True"
| "settled (Rejected err) = True"
| "settled t = False"

subsection \<open>States a unit's compilation leaves\<close>

text \<open>
  \<open>emitted st ds\<close> is \<open>st\<close> after the diagnostics \<open>ds\<close> were recorded and logged;
  \<open>invoked st n ds\<close> is \<open>st\<close> after the backend was called for unit \<open>n\<close> and the
  diagnostics \<open>ds\<close> of its output were recorded and logged.
\<close>

definition emitted :: "state \<Rightarrow> string list \<Rightarrow> state" where
  "emitted st ds = st\<lparr>errors := errors st @ ds, log := log st @ map LogDiagnostic ds\<rparr>"

definition invoked :: "state \<Rightarrow> string \<Rightarrow> string list \<Rightarrow> state" where
  "invoked st n ds =
     emitted (st\<lparr>log := log st @ [LogCompiling n], backend_calls := backend_calls st @ [n]\<rparr>) ds"

subsection \<open>A small build, for evaluation\<close>

text \<open>
  Two backends: one reports the same warning under two directories and produces the contract
  of the unit; the other reports an error and produces nothing. An options record naming
  them for two versions, and the state in which nothing has been built.
\<close>

definition example_backend :: backend where
  "example_backend = (\<lambda>(name, src) opt findImports.
     \<lparr>compile_errors = Some [''sub/dir/'' @ name @ '':3: Warning: x'',
                              ''other/'' @ name @ '':3: Warning: x''],
      contracts = [(name @ '':'' @ basename_ext name ''.sol'',
                    \<lparr>interface = Some (JArr []), bytecode = ''60''\<rparr>)]\<rparr>)"

definition failing_backend :: backend where
  "failing_backend = (\<lambda>(name, src) opt findImports.
     \<lparr>compile_errors = Some [name @ '':1: Error: y''], contracts = []\<rparr>)"

definition example_env :: env where
  "example_env =
     \<lparr>networkId = 50, optimizerEnabled = 0, artifactsDir = ''artifacts'',
      binPaths = [(''0.4.11'', ''soljson-v0.4.11.js''), (''0.4.8'', ''soljson-v0.4.8.js'')],
      solc_bin = (\<lambda>p. if p = ''./solc/solc_bin/soljson-v0.4.11.js'' then Some example_backend
                       else if p = ''./solc/solc_bin/soljson-v0.4.8.js'' then Some failing_backend
                       else None),
      sha3_hex = (\<lambda>s. if s = [] then ''c5d2'' else ''ab12''),
      date_now = (\<lambda>n. 1500000000000),
      write_ok = (\<lambda>p. True)\<rparr>"

definition example_state :: state where
  "example_state =
     \<lparr>artifactsDirExists = False, files = Map.empty, errors = [], log = [],
      backend_calls = [], tasks = []\<rparr>"

text \<open>A state in which the unit \<^verbatim>\<open>Foo.sol\<close> was built before, for network 1.\<close>

definition example_prior :: json where
  "example_prior =
     JObj [(''contract_name'', JStr ''Foo''),
           (''networks'', JObj [(''1'', JObj [(''solc_version'', JStr ''0.4.11''),
              (''keccak256'', JStr ''0x01''), (''optimizer_enabled'', JNum 0)])])]"

definition example_prior_state :: state where
  "example_prior_state = example_state\<lparr>files := [''artifacts/Foo.json'' \<mapsto> Parsed example_prior]\<rparr>"

definition example_source :: string where
  "example_source = ''pragma solidity ^0.4.11; contract Foo {}''"


text \<open>Two units: for one the backend produces nothing, the other builds.\<close>

definition example_failing_units :: ContractSources where
  "example_failing_units =
     [(''Qux.sol'', ''pragma solidity ^0.4.8; contract Qux {}''), (''Foo.sol'', example_source)]"

text \<open>A state in which the artifact of \<^verbatim>\<open>Foo.sol\<close> holds a field named \<^verbatim>\<open>__proto__\<close>.\<close>

definition example_proto_prior :: json where
  "example_proto_prior =
     JObj [(''contract_name'', JStr ''Foo''), (''__proto__'', JObj [(''schema'', JStr ''1'')]),
           (''networks'', JObj [])]"

definition example_proto_state :: state where
  "example_proto_state =
     example_state\<lparr>files := [''artifacts/Foo.json'' \<mapsto> Parsed example_proto_prior]\<rparr>"

text \<open>
  The options with a module standing at the path built for a version that \<open>binPaths\<close> does
  not hold, and the options with no module at all.
\<close>

definition example_stray_env :: env where
  "example_stray_env =
     example_env\<lparr>solc_bin := (\<lambda>p. if p = ''./solc/solc_bin/undefined'' then Some example_backend
                                    else None)\<rparr>"

definition example_missing_env :: env where
  "example_missing_env = example_env\<lparr>solc_bin := (\<lambda>p. None)\<rparr>"

section \<open>Specification predicates\<close>

subsection \<open>The version declaration the search looks for\<close>

text \<open>
  In words: a version token is \<open><major>.<minor>.<patch>\<close>, each component one or two
  digits; a declaration is the word \<^verbatim>\<open>solidity\<close>, one white-space character, an optional
  caret and the token. \<open>declares_version\<close> says that a text holds a declaration somewhere.
  The predicates say which texts count, with no search order; the functions above are the
  code's search.
\<close>

definition version_component :: "string \<Rightarrow> bool" where
  "version_component d = ((length d = 1 \<or> length d = 2) \<and> list_all is_digit d)"

definition version_declaration :: "string \<Rightarrow> string \<Rightarrow> bool" where
  "version_declaration d v =
     (\<exists>w c a b p. d = ''solidity'' @ [w] @ c @ v \<and> is_space w \<and> (c = [] \<or> c = ''^'')
        \<and> v = a @ ''.'' @ b @ ''.'' @ p
        \<and> version_component a \<and> version_component b \<and> version_component p)"

definition declares_version :: "string \<Rightarrow> bool" where
  "declares_version src = (\<exists>pre d v post. src = pre @ d @ post \<and> version_declaration d v)"

text \<open>The characters a declaration can hold behind its first one.\<close>

definition pattern_char :: "char \<Rightarrow> bool" where
  "pattern_char x = (x \<in> set ''olidity^.'' \<or> is_space x \<or> is_digit x)"




subsection \<open>Diagnostics that differ in the directory prefix\<close>

text \<open>
  A directory prefix is empty or ends in a separator, and stays on one line. A replacement
  text refers to the matched text where it holds \<^verbatim>\<open>$&\<close>.
\<close>

fun has_dollar_amp :: "string \<Rightarrow> bool" where
  "has_dollar_amp (x # y # t) = ((x = CHR ''$'' \<and> y = CHR ''&'') \<or> has_dollar_amp (y # t))"
| "has_dollar_amp [x] = False"
| "has_dollar_amp [] = False"

definition directory_prefix :: "string \<Rightarrow> bool" where
  "directory_prefix d = ((d = [] \<or> last d = CHR ''/'') \<and> list_all (\<lambda>c. \<not> line_terminator c) d)"

subsection \<open>The record of a unit and its entry for a target\<close>

text \<open>
  The entry an artifact file holds for a target: what \<^verbatim>\<open>networks[T]\<close> reads in the parsed
  file. A file that is missing or does not parse, or in which the reads fail, holds no
  entry.
\<close>

definition stored_entry :: "artifact_file option \<Rightarrow> nat \<Rightarrow> json option" where
  "stored_entry f T =
     (case f of
        Some (Parsed a) \<Rightarrow>
          (case get_field (Some a) ''networks'' of
             Inr nets \<Rightarrow> (case get_index nets T of Inr v \<Rightarrow> v | Inl e \<Rightarrow> None)
           | Inl e \<Rightarrow> None)
      | _ \<Rightarrow> None)"

subsection \<open>Staleness, as the specification words it\<close>

text \<open>
  A unit is stale for a target when no record entry exists for it, or the stored digest
  differs from the digest of the current text, or the stored optimizer flag differs from the
  requested one.
\<close>

definition stored_digest :: "json \<Rightarrow> json option" where
  "stored_digest entry = (case get_field (Some entry) ''keccak256'' of Inr v \<Rightarrow> v | Inl e \<Rightarrow> None)"

definition stored_flag :: "json \<Rightarrow> json option" where
  "stored_flag entry = (case get_field (Some entry) ''optimizer_enabled'' of Inr v \<Rightarrow> v | Inl e \<Rightarrow> None)"

definition stale_by_spec :: "artifact_file option \<Rightarrow> nat \<Rightarrow> string \<Rightarrow> int \<Rightarrow> bool" where
  "stale_by_spec f T sourceHash opt =
     (case stored_entry f T of
        None \<Rightarrow> True
      | Some entry \<Rightarrow>
          stored_digest entry \<noteq> Some (JStr sourceHash) \<or> stored_flag entry \<noteq> Some (JNum opt))"

subsection \<open>What a run gives to the reporting sink\<close>

text \<open>
  The diagnostics among the logged lines, in order; and the invariant of a run: the
  diagnostics logged since \<open>base\<close> are pairwise different and all recorded in
  \<^verbatim>\<open>errors\<close>.
\<close>

fun diagnostics :: "event list \<Rightarrow> string list" where
  "diagnostics [] = []"
| "diagnostics (LogDiagnostic m # evs) = m # diagnostics evs"
| "diagnostics (ev # evs) = diagnostics evs"

definition deduplicated :: "event list \<Rightarrow> state \<Rightarrow> bool" where
  "deduplicated base st =
     (\<exists>new. log st = base @ new \<and> distinct (diagnostics new)
        \<and> set (diagnostics new) \<subseteq> set (errors st))"

subsection \<open>Invariants of two runs in succession\<close>

text \<open>
  A file is fresh for a unit when the unit is not stale against it. In a run, every task
  stands for its unit: a task that waits to write holds a fresh artifact for the path of its
  unit, and a fulfilled task has a fresh file (\<open>built\<close>). In a second run started from
  \<open>st1\<close>, the units fulfilled in \<open>st1\<close> keep a fresh file, are only read, and are not
  among the new backend calls (\<open>skipping\<close>); when all were fulfilled nothing changes
  (\<open>idle\<close>).
\<close>

definition fresh :: "env \<Rightarrow> string \<Rightarrow> artifact_file option \<Rightarrow> bool" where
  "fresh e source f =
     (\<not> stale_by_spec f (networkId e) (''0x'' @ sha3_hex e source) (optimizerEnabled e))"

fun task_ok :: "env \<Rightarrow> (string \<times> string) \<Rightarrow> task \<Rightarrow> (string \<Rightarrow> artifact_file option) \<Rightarrow> bool" where
  "task_ok e (n, src) (AwaitRead n' src') fs = (n' = n \<and> src' = src)"
| "task_ok e (n, src) (AwaitWrite n' p a) fs =
     (p = currentArtifactPath e n \<and> fresh e src (Some (Parsed a)))"
| "task_ok e (n, src) Fulfilled fs = fresh e src (fs (currentArtifactPath e n))"
| "task_ok e (n, src) (Rejected err) fs = True"

definition built :: "env \<Rightarrow> ContractSources \<Rightarrow> state \<Rightarrow> bool" where
  "built e sources st =
     (length (tasks st) = length sources
      \<and> (\<forall>i < length sources. task_ok e (sources ! i) (tasks st ! i) (files st)))"

definition idle :: "ContractSources \<Rightarrow> state \<Rightarrow> state \<Rightarrow> bool" where
  "idle sources st1 st =
     (files st = files st1 \<and> backend_calls st = backend_calls st1
      \<and> length (tasks st) = length sources
      \<and> (\<forall>i < length sources.
            tasks st ! i = AwaitRead (fst (sources ! i)) (snd (sources ! i))
            \<or> tasks st ! i = Fulfilled))"

definition skipping :: "env \<Rightarrow> ContractSources \<Rightarrow> state \<Rightarrow> state \<Rightarrow> bool" where
  "skipping e sources st1 st =
     (built e sources st
      \<and> (\<exists>new. backend_calls st = backend_calls st1 @ new
            \<and> (\<forall>i < length sources. tasks st1 ! i = Fulfilled \<longrightarrow>
                  fst (sources ! i) \<notin> set new
                  \<and> fresh e (snd (sources ! i)) (files st (currentArtifactPath e (fst (sources ! i))))
                  \<and> (tasks st ! i = AwaitRead (fst (sources ! i)) (snd (sources ! i))
                       \<or> tasks st ! i = Fulfilled))))"

section \<open>Properties of version extraction\<close>

lemma vc_cases: "version_component d = ((\<exists>a. d = [a] \<and> is_digit a) \<or> (\<exists>a b. d = [a, b] \<and> is_digit a \<and> is_digit b))"
  unfolding version_component_def
  apply (cases d; simp)
  subgoal for a d' by (cases d'; auto)
  done

lemma digits12_iff: "(d, r) \<in> set (digits12 s) = (s = d @ r \<and> version_component d)"
  apply (induction s rule: digits12.induct)
    apply (auto simp: vc_cases)
  done

lemma dot_digits_iff: "(d, r) \<in> set (dot_digits s) = (s = CHR ''.'' # d @ r \<and> version_component d)"
  by (cases s) (auto simp: dot_digits_def digits12_iff)

lemma version_alternatives_iff:
  "v \<in> set (version_alternatives s) =
     (\<exists>a b c r. s = a @ ''.'' @ b @ ''.'' @ c @ r \<and> v = a @ ''.'' @ b @ ''.'' @ c
        \<and> version_component a \<and> version_component b \<and> version_component c)"
  (is "?L = ?R")
proof
  assume ?L
  then obtain a s1 b s2 c s3 where m: "(a, s1) \<in> set (digits12 s)"
      "(b, s2) \<in> set (dot_digits s1)" "(c, s3) \<in> set (dot_digits s2)"
      and v: "v = a @ ''.'' @ b @ ''.'' @ c"
    unfolding version_alternatives_def by auto
  from m have "s = a @ ''.'' @ b @ ''.'' @ c @ s3" "version_component a"
      "version_component b" "version_component c"
    by (simp_all add: digits12_iff dot_digits_iff)
  with v show ?R by blast
next
  assume ?R
  then obtain a b c r where s: "s = a @ ''.'' @ b @ ''.'' @ c @ r"
      and v: "v = a @ ''.'' @ b @ ''.'' @ c"
      and vc: "version_component a" "version_component b" "version_component c"
    by blast
  have "(a, ''.'' @ b @ ''.'' @ c @ r) \<in> set (digits12 s)"
    using s vc by (simp add: digits12_iff)
  moreover have "(b, ''.'' @ c @ r) \<in> set (dot_digits (''.'' @ b @ ''.'' @ c @ r))"
    using vc by (simp add: dot_digits_iff)
  moreover have "(c, r) \<in> set (dot_digits (''.'' @ c @ r))"
    using vc by (simp add: dot_digits_iff)
  ultimately show ?L
    unfolding version_alternatives_def v by force
qed

lemma match_version_Some:
  "match_version s = Some v \<Longrightarrow> (\<exists>a b c r. s = a @ ''.'' @ b @ ''.'' @ c @ r \<and> v = a @ ''.'' @ b @ ''.'' @ c
        \<and> version_component a \<and> version_component b \<and> version_component c)"
  using version_alternatives_iff [of v s]
  by (auto simp: match_version_def split: list.splits)

lemma match_version_None:
  "(match_version s = None) = (\<not> (\<exists>a b c r. s = a @ ''.'' @ b @ ''.'' @ c @ r
        \<and> version_component a \<and> version_component b \<and> version_component c))"
proof -
  have "(match_version s = None) = (set (version_alternatives s) = {})"
    by (simp add: match_version_def split: list.splits)
  also have "\<dots> = (\<forall>v. v \<notin> set (version_alternatives s))" by auto
  finally show ?thesis unfolding version_alternatives_iff by blast
qed

lemma strip_prefix_iff: "(strip_prefix p s = Some r) = (s = p @ r)"
  by (induction p s rule: strip_prefix.induct) auto

lemma match_here_Some:
  assumes "match_here s = Some v"
  shows "\<exists>d r. s = d @ r \<and> version_declaration d v"
proof -
  from assms obtain w r where sp: "strip_prefix ''solidity'' s = Some (w # r)" and w: "is_space w"
    and mv: "(\<exists>r'. r = CHR ''^'' # r' \<and> match_version r' = Some v) \<or> match_version r = Some v"
    by (auto simp: match_here_def split: option.splits list.splits if_splits)
  from sp have s: "s = ''solidity'' @ w # r" by (simp only: strip_prefix_iff)
  from mv show ?thesis
  proof
    assume "\<exists>r'. r = CHR ''^'' # r' \<and> match_version r' = Some v"
    then obtain r' where r: "r = CHR ''^'' # r'" and m: "match_version r' = Some v" by blast
    from match_version_Some [OF m] obtain a b c t where
      "r' = a @ ''.'' @ b @ ''.'' @ c @ t" "v = a @ ''.'' @ b @ ''.'' @ c"
      "version_component a" "version_component b" "version_component c" by blast
    then have "s = (''solidity'' @ [w] @ ''^'' @ v) @ t"
      "version_declaration (''solidity'' @ [w] @ ''^'' @ v) v"
      using s r w unfolding version_declaration_def by auto
    then show ?thesis by blast
  next
    assume m: "match_version r = Some v"
    from match_version_Some [OF m] obtain a b c t where
      "r = a @ ''.'' @ b @ ''.'' @ c @ t" "v = a @ ''.'' @ b @ ''.'' @ c"
      "version_component a" "version_component b" "version_component c" by blast
    then have "s = (''solidity'' @ [w] @ [] @ v) @ t"
      "version_declaration (''solidity'' @ [w] @ [] @ v) v"
      using s w unfolding version_declaration_def by auto
    then show ?thesis by blast
  qed
qed

lemma version_component_not_caret: "version_component a \<Longrightarrow> a = c # a' \<Longrightarrow> c \<noteq> CHR ''^''"
  by (auto simp: version_component_def is_digit_def)

lemma match_here_complete:
  assumes "version_declaration d v"
  shows "\<exists>v'. match_here (d @ r) = Some v'"
proof -
  from assms obtain w c a b p where d: "d = ''solidity'' @ [w] @ c @ v" and w: "is_space w"
    and c: "c = [] \<or> c = ''^''" and v: "v = a @ ''.'' @ b @ ''.'' @ p"
    and vc: "version_component a" "version_component b" "version_component p"
    unfolding version_declaration_def by blast
  have "match_version (v @ r) \<noteq> None"
    unfolding match_version_None using v vc by auto
  then obtain v' where mv: "match_version (v @ r) = Some v'" by auto
  have sp: "strip_prefix ''solidity'' (d @ r) = Some (w # c @ v @ r)"
    unfolding strip_prefix_iff d by simp
  from c show ?thesis
  proof
    assume "c = []"
    then show ?thesis using sp w mv unfolding match_here_def
      by (auto split: list.splits option.splits)
  next
    assume "c = ''^''"
    then show ?thesis using sp w mv unfolding match_here_def
      by (auto split: list.splits option.splits)
  qed
qed

lemma version_search_Some:
  "version_search s = Some v \<Longrightarrow> \<exists>pre d post. s = pre @ d @ post \<and> version_declaration d v"
proof (induction s)
  case Nil
  then show ?case by (simp add: match_here_def)
next
  case (Cons c s)
  show ?case
  proof (cases "match_here (c # s)")
    case None
    with Cons.prems have "version_search s = Some v" by simp
    from Cons.IH [OF this] obtain pre d post where "s = pre @ d @ post" "version_declaration d v"
      by blast
    then have "c # s = (c # pre) @ d @ post \<and> version_declaration d v" by simp
    then show ?thesis by blast
  next
    case (Some u)
    with Cons.prems have "match_here (c # s) = Some v" by simp
    from match_here_Some [OF this] obtain d r where "c # s = [] @ d @ r" "version_declaration d v"
      by auto
    then show ?thesis by blast
  qed
qed

lemma version_search_complete:
  "version_declaration d v \<Longrightarrow> \<exists>v'. version_search (pre @ d @ post) = Some v'"
proof (induction pre)
  case Nil
  from match_here_complete [OF Nil, of post] obtain v' where m: "match_here (d @ post) = Some v'" by blast
  then show ?case by (cases "d @ post") (auto simp: match_here_def)
next
  case (Cons c pre)
  then show ?case by (cases "match_here (c # pre @ d @ post)") auto
qed

lemma version_search_iff: "(\<exists>v. version_search s = Some v) = declares_version s"
  unfolding declares_version_def
  using version_search_Some version_search_complete by blast

lemma version_component_chars: "version_component a \<Longrightarrow> x \<in> set a \<Longrightarrow> pattern_char x"
  by (auto simp: version_component_def pattern_char_def list_all_iff)

lemma declaration_tail_chars:
  assumes "version_declaration d v" "x \<in> set (tl d)"
  shows "pattern_char x"
proof -
  from assms(1) obtain w c a b p where d: "d = ''solidity'' @ [w] @ c @ v" and w: "is_space w"
    and c: "c = [] \<or> c = ''^''" and v: "v = a @ ''.'' @ b @ ''.'' @ p"
    and vc: "version_component a" "version_component b" "version_component p"
    unfolding version_declaration_def by blast
  have "tl d = ''olidity'' @ [w] @ c @ a @ ''.'' @ b @ ''.'' @ p" using d v by simp
  with assms(2) consider "x \<in> set ''olidity.''" | "x = w" | "x \<in> set c" | "x \<in> set a"
    | "x \<in> set b" | "x \<in> set p" by auto
  then show ?thesis
  proof cases
    case 1 then show ?thesis by (auto simp: pattern_char_def)
  next
    case 2 then show ?thesis using w by (simp add: pattern_char_def)
  next
    case 3 then show ?thesis using c by (auto simp: pattern_char_def)
  next
    case 4 then show ?thesis using vc(1) by (rule version_component_chars [rotated])
  next
    case 5 then show ?thesis using vc(2) by (rule version_component_chars [rotated])
  next
    case 6 then show ?thesis using vc(3) by (rule version_component_chars [rotated])
  qed
qed

lemma declaration_nonempty: "version_declaration d v \<Longrightarrow> d \<noteq> []"
  by (auto simp: version_declaration_def)

lemma match_here_overlap:
  assumes "u \<noteq> []" "match_here (u @ x # rest) = Some v" "\<not> pattern_char x"
  shows "\<exists>d r. u = d @ r \<and> version_declaration d v"
proof -
  from match_here_Some [OF assms(2)] obtain d r where e: "u @ x # rest = d @ r"
    and vd: "version_declaration d v" by blast
  from e consider t where "u = d @ t" | t where "d = u @ x # t"
    by (auto simp: append_eq_append_conv2 Cons_eq_append_conv)
  then show ?thesis
  proof cases
    case 1
    with vd show ?thesis by blast
  next
    case 2
    with assms(1) have "x \<in> set (tl d)" by (cases u) auto
    with declaration_tail_chars [OF vd] assms(3) show ?thesis by blast
  qed
qed

lemma declares_version_Cons: "declares_version s \<Longrightarrow> declares_version (c # s)"
proof -
  assume "declares_version s"
  then obtain pre d v post where "s = pre @ d @ post" "version_declaration d v"
    unfolding declares_version_def by blast
  then have "c # s = (c # pre) @ d @ post \<and> version_declaration d v" by simp
  then show ?thesis unfolding declares_version_def by blast
qed

lemma version_search_skip:
  assumes "\<not> pattern_char x"
  shows "\<not> declares_version pre \<Longrightarrow> version_search (pre @ x # rest) = version_search (x # rest)"
proof (induction pre)
  case Nil
  then show ?case by simp
next
  case (Cons c pre)
  have "match_here ((c # pre) @ x # rest) = None"
  proof (rule ccontr)
    assume "match_here ((c # pre) @ x # rest) \<noteq> None"
    then obtain v where "match_here ((c # pre) @ x # rest) = Some v" by auto
    from match_here_overlap [OF _ this assms] obtain d r where
      "c # pre = [] @ d @ r" "version_declaration d v" by auto
    then have "declares_version (c # pre)" unfolding declares_version_def by blast
    with Cons.prems show False by simp
  qed
  moreover have "\<not> declares_version pre" using Cons.prems declares_version_Cons by blast
  ultimately show ?case using Cons.IH by simp
qed


lemma digit_prefix_unique:
  "list_all is_digit M \<Longrightarrow> list_all is_digit a \<Longrightarrow> M @ CHR ''.'' # X = a @ CHR ''.'' # Y
     \<Longrightarrow> M = a \<and> X = Y"
proof (induction M arbitrary: a)
  case Nil
  then show ?case by (cases a) (auto simp: is_digit_def)
next
  case (Cons c M)
  then show ?case by (cases a) (auto simp: is_digit_def)
qed

lemma version_component_digits: "version_component a \<Longrightarrow> list_all is_digit a \<and> length a \<le> 2"
  by (auto simp: version_component_def)

lemma match_version_long:
  assumes "list_all is_digit M" "list_all is_digit m" "3 \<le> length M \<or> 3 \<le> length m"
  shows "match_version (M @ ''.'' @ m @ ''.'' @ rest) = None"
  unfolding match_version_None
proof
  assume "\<exists>a b c r. M @ ''.'' @ m @ ''.'' @ rest = a @ ''.'' @ b @ ''.'' @ c @ r
        \<and> version_component a \<and> version_component b \<and> version_component c"
  then obtain a b c r where e: "M @ ''.'' @ m @ ''.'' @ rest = a @ ''.'' @ b @ ''.'' @ c @ r"
    and vc: "version_component a" "version_component b" by blast
  from e have e1: "M @ CHR ''.'' # (m @ ''.'' @ rest) = a @ CHR ''.'' # (b @ ''.'' @ c @ r)" by simp
  from digit_prefix_unique [OF assms(1) _ e1] vc(1)
  have Ma: "M = a" and e2: "m @ CHR ''.'' # rest = b @ CHR ''.'' # (c @ r)"
    by (auto dest: version_component_digits)
  from digit_prefix_unique [OF assms(2) _ e2] vc(2)
  have "m = b" by (auto dest: version_component_digits)
  with Ma assms(3) vc show False by (auto dest: version_component_digits)
qed

lemma match_version_not_digit: "\<not> is_digit x \<Longrightarrow> match_version (x # s) = None"
proof -
  have "digits12 (x # s) = []" if "\<not> is_digit x" using that by (cases s) auto
  then show "\<not> is_digit x \<Longrightarrow> match_version (x # s) = None"
    by (simp add: match_version_def version_alternatives_def)
qed

lemma match_here_long:
  assumes "is_space w" "c = [] \<or> c = ''^''"
    "list_all is_digit M" "list_all is_digit m" "3 \<le> length M \<or> 3 \<le> length m"
  shows "match_here (''solidity'' @ [w] @ c @ M @ ''.'' @ m @ ''.'' @ rest) = None"
proof -
  have mv: "match_version (M @ ''.'' @ m @ ''.'' @ rest) = None"
    by (rule match_version_long [OF assms(3,4,5)])
  from assms(2) show ?thesis
  proof
    assume c: "c = []"
    have "(case M @ ''.'' @ m @ ''.'' @ rest of [] \<Rightarrow> None
           | x # r' \<Rightarrow> if x = CHR ''^'' then match_version r' else None) = None"
      using assms(3) by (cases M) (auto simp: is_digit_def)
    then show ?thesis using mv c assms(1) by (simp add: match_here_def)
  next
    assume c: "c = ''^''"
    have "match_version (CHR ''^'' # M @ ''.'' @ m @ ''.'' @ rest) = None"
      by (rule match_version_not_digit) (simp add: is_digit_def)
    then show ?thesis using mv c assms(1) by (simp add: match_here_def)
  qed
qed

lemma match_here_not_s: "x \<noteq> CHR ''s'' \<Longrightarrow> match_here (x # s) = None"
  by (simp add: match_here_def)

lemma version_search_skip_chars:
  "CHR ''s'' \<notin> set xs \<Longrightarrow> version_search (xs @ post) = version_search post"
  by (induction xs) (auto simp: match_here_not_s)

lemma digits_no_s: "list_all is_digit M \<Longrightarrow> CHR ''s'' \<notin> set M"
proof -
  have "\<not> is_digit (CHR ''s'')" by (simp add: is_digit_def)
  then show "list_all is_digit M \<Longrightarrow> CHR ''s'' \<notin> set M"
    unfolding list_all_iff by blast
qed

section \<open>The search finds the first and longest declaration\<close>




















section \<open>Properties of message normalisation\<close>

lemma star_dot_sol_prefix: "star_dot_sol s = Some m \<Longrightarrow> \<exists>rest. s = m @ rest"
proof (induction s arbitrary: m)
  case Nil
  then show ?case by simp
next
  case (Cons c s)
  show ?case
  proof (cases "if line_terminator c then None else star_dot_sol s")
    case None
    with Cons.prems obtain a where "strip_prefix ''.sol'' (c # s) = Some a" "m = ''.sol''"
      by (auto split: option.splits simp del: strip_prefix.simps)
    then have "c # s = m @ a" by (simp only: strip_prefix_iff)
    then show ?thesis by blast
  next
    case (Some m')
    then have "star_dot_sol s = Some m'" by (auto split: if_splits)
    from Cons.IH [OF this] obtain rest where "s = m' @ rest" by blast
    moreover from Some Cons.prems have "m = c # m'" by simp
    ultimately show ?thesis by simp
  qed
qed

lemma star_dot_sol_ends: "star_dot_sol s = Some m \<Longrightarrow> \<exists>k. m = k @ ''.sol''"
proof (induction s arbitrary: m)
  case Nil
  then show ?case by simp
next
  case (Cons c s)
  show ?case
  proof (cases "if line_terminator c then None else star_dot_sol s")
    case None
    with Cons.prems have "m = [] @ ''.sol''"
      by (auto split: option.splits simp del: strip_prefix.simps)
    then show ?thesis by blast
  next
    case (Some m')
    then have "star_dot_sol s = Some m'" by (auto split: if_splits)
    from Cons.IH [OF this] obtain k where "m' = k @ ''.sol''" by blast
    moreover from Some Cons.prems have "m = c # m'" by simp
    ultimately have "m = (c # k) @ ''.sol''" by simp
    then show ?thesis by blast
  qed
qed

lemma star_dot_sol_prepend:
  "list_all (\<lambda>c. \<not> line_terminator c) d \<Longrightarrow> star_dot_sol s = Some m
     \<Longrightarrow> star_dot_sol (d @ s) = Some (d @ m)"
  by (induction d) auto

lemma star_dot_sol_here: "\<exists>m. star_dot_sol (''.sol'' @ r) = Some m"
  by (simp split: option.splits)

lemma sol_search_here: "star_dot_sol s = Some m \<Longrightarrow> sol_search s = Some m"
  by (cases s) auto

lemma find_first_prefix: "find_first m (m @ rest) = Some ([], rest)"
proof (cases "m @ rest")
  case Nil
  then show ?thesis by simp
next
  case (Cons c s)
  have "strip_prefix m (m @ rest) = Some rest" by (simp add: strip_prefix_iff)
  then show ?thesis using Cons by simp
qed

lemma basename_sol: "basename (k @ ''.sol'') = rev (takeWhile (\<lambda>c. c \<noteq> CHR ''/'') (''los.'' @ rev k))"
  by (simp add: basename_def)

lemma basename_directory_prefix:
  assumes "d = [] \<or> last d = CHR ''/''"
  shows "basename (d @ k @ ''.sol'') = basename (k @ ''.sol'')"
proof (cases d rule: rev_cases)
  case Nil
  then show ?thesis by simp
next
  case (snoc d' x)
  with assms have x: "x = CHR ''/''" by simp
  have "takeWhile (\<lambda>c. c \<noteq> CHR ''/'') ((''los.'' @ rev k) @ CHR ''/'' # rev d')
      = takeWhile (\<lambda>c. c \<noteq> CHR ''/'') (''los.'' @ rev k)"
    by (rule takeWhile_tail) simp
  moreover have "basename ((d @ k) @ ''.sol'')
      = rev (takeWhile (\<lambda>c. c \<noteq> CHR ''/'') (''los.'' @ rev (d @ k)))"
    by (rule basename_sol)
  moreover have "''los.'' @ rev (d @ k) = (''los.'' @ rev k) @ CHR ''/'' # rev d'"
    unfolding snoc x by simp
  ultimately show ?thesis unfolding basename_sol [of k] by simp
qed

lemma has_dollar_amp_append_left: "has_dollar_amp b \<Longrightarrow> has_dollar_amp (a @ b)"
proof (induction a)
  case Nil
  then show ?case by simp
next
  case (Cons x a)
  then show ?case by (cases "a @ b") auto
qed

lemma has_dollar_amp_Cons: "has_dollar_amp t \<Longrightarrow> has_dollar_amp (y # t)"
  using has_dollar_amp_append_left [of t "[y]"] by simp

lemma expand_matched_irrelevant:
  "\<not> has_dollar_amp t \<Longrightarrow> expand m1 p f t = expand m2 p f t"
proof (induction m1 p f t rule: expand.induct)
  case (1 matched preceding following x y t)
  from "1.prems" have n1: "\<not> has_dollar_amp (y # t)" and n0: "\<not> (x = CHR ''$'' \<and> y = CHR ''&'')"
    by auto
  from n1 have n2: "\<not> has_dollar_amp t" using has_dollar_amp_Cons by blast
  show ?case using "1.IH" n0 n1 n2 by auto
qed simp_all

lemma has_dollar_amp_append_right: "has_dollar_amp a \<Longrightarrow> has_dollar_amp (a @ b)"
  by (induction a rule: has_dollar_amp.induct) auto

lemma rev_split_three:
  "rev (dropWhile P (dropWhile Q xs)) @ rev (takeWhile P (dropWhile Q xs)) @ rev (takeWhile Q xs)
     = rev xs"
proof -
  have a: "rev (dropWhile Q xs) @ rev (takeWhile Q xs) = rev xs"
    unfolding rev_append [symmetric] by simp
  have b: "rev (dropWhile P (dropWhile Q xs)) @ rev (takeWhile P (dropWhile Q xs))
      = rev (dropWhile Q xs)"
    unfolding rev_append [symmetric] by simp
  show ?thesis using a b by (metis append.assoc)
qed

lemma basename_infix: "\<exists>a c. m = a @ basename m @ c"
proof -
  have "m = rev (dropWhile (\<lambda>c. c \<noteq> CHR ''/'') (dropWhile (\<lambda>c. c = CHR ''/'') (rev m)))
      @ basename m @ rev (takeWhile (\<lambda>c. c = CHR ''/'') (rev m))"
    unfolding basename_def using rev_split_three [of _ _ "rev m"] by simp
  then show ?thesis by blast
qed

lemma normalized_prefix_form:
  assumes "directory_prefix d" "star_dot_sol s = Some m" "s = m @ rest"
  shows "getNormalizedErrMsg (d @ s) = Inr (expand (d @ m) [] rest (basename m) @ rest)"
proof -
  from assms(1) have nt: "list_all (\<lambda>c. \<not> line_terminator c) d" and dl: "d = [] \<or> last d = CHR ''/''"
    by (simp_all add: directory_prefix_def)
  from star_dot_sol_ends [OF assms(2)] obtain k where k: "m = k @ ''.sol''" by blast
  have "sol_search (d @ s) = Some (d @ m)"
    by (rule sol_search_here [OF star_dot_sol_prepend [OF nt assms(2)]])
  moreover have "basename (d @ m) = basename m"
    unfolding k by (rule basename_directory_prefix [OF dl])
  moreover have "find_first (d @ m) (d @ s) = Some ([], rest)"
    using find_first_prefix [of "d @ m" rest] assms(3) by simp
  ultimately show ?thesis
    by (simp add: getNormalizedErrMsg_def replace_first_def)
qed

section \<open>Properties of the artifact merge\<close>

lemma digit_char_inj: "a < 10 \<Longrightarrow> b < 10 \<Longrightarrow> digit_char a = digit_char b \<Longrightarrow> a = b"
proof -
  have d: "distinct ''0123456789''" by simp
  assume "a < 10" "b < 10" "digit_char a = digit_char b"
  then show "a = b" unfolding digit_char_def
    using d by (simp add: nth_eq_iff_index_eq del: distinct.simps)
qed

lemma show_nat_nonempty: "show_nat n \<noteq> []"
  by (subst show_nat.simps) simp

lemma show_nat_last: "last (show_nat n) = digit_char (n mod 10)"
  by (subst show_nat.simps) simp

lemma show_nat_butlast: "butlast (show_nat n) = (if n < 10 then [] else show_nat (n div 10))"
  by (subst show_nat.simps) simp

lemma show_nat_inj: "show_nat a = show_nat b \<Longrightarrow> a = b"
proof (induction a arbitrary: b rule: less_induct)
  case (less a)
  from less.prems have l: "last (show_nat a) = last (show_nat b)"
    and bl: "butlast (show_nat a) = butlast (show_nat b)" by simp_all
  from l have m: "a mod 10 = b mod 10"
    unfolding show_nat_last by (rule digit_char_inj [rotated 2]) simp_all
  show ?case
  proof (cases "a < 10")
    case True
    with bl have "b < 10" unfolding show_nat_butlast
      using show_nat_nonempty [of "b div 10"] by (auto split: if_splits)
    with True m show ?thesis by simp
  next
    case False
    with bl have b: "\<not> b < 10" and e: "show_nat (a div 10) = show_nat (b div 10)"
      unfolding show_nat_butlast using show_nat_nonempty [of "a div 10"]
      by (auto split: if_splits)
    from False have "a div 10 < a" by simp
    from less.IH [OF this e] have "a div 10 = b div 10" .
    with m show ?thesis by (metis div_mult_mod_eq)
  qed
qed

lemma show_nat_eq_iff: "(show_nat a = show_nat b) = (a = b)"
  using show_nat_inj by blast

lemma distinct_show_upt: "distinct (map show_nat [0..<n])"
  by (simp add: distinct_map inj_on_def show_nat_eq_iff)

lemma map_of_indexed:
  assumes "length ys = n"
  shows "map_of (zip (map show_nat [0..<n]) ys) (show_nat i) = (if i < n then Some (ys ! i) else None)"
proof (cases "i < n")
  case True
  have "map_of (zip (map show_nat [0..<n]) ys) (map show_nat [0..<n] ! i) = Some (ys ! i)"
    by (rule map_of_zip_nth) (use assms True distinct_show_upt in simp_all)
  with True show ?thesis by simp
next
  case False
  have "(map_of (zip (map show_nat [0..<n]) ys) (show_nat i) = None)
      = (show_nat i \<notin> set (map show_nat [0..<n]))"
    by (rule map_of_zip_is_None) (use assms in simp)
  with False show ?thesis by (auto simp: show_nat_eq_iff)
qed

lemma map_of_filter_key:
  "k \<noteq> p \<Longrightarrow> map_of (filter (\<lambda>kv. fst kv \<noteq> p) kvs) k = map_of kvs k"
  by (induction kvs) auto

lemma map_of_filter_dropped: "map_of (filter (\<lambda>kv. fst kv \<noteq> p) kvs) p = None"
  by (induction kvs) auto

lemma digit_char_not_underscore: "d < 10 \<Longrightarrow> digit_char d \<noteq> CHR ''_''"
proof -
  assume "d < 10"
  then have "digit_char d \<in> set ''0123456789''"
    unfolding digit_char_def by (intro nth_mem) simp
  then show ?thesis by auto
qed

lemma show_nat_not_proto: "show_nat i \<noteq> ''__proto__''"
proof
  assume "show_nat i = ''__proto__''"
  then have "last (show_nat i) = last ''__proto__''" by simp
  then have "digit_char (i mod 10) = CHR ''_''" by (simp add: show_nat_last)
  with digit_char_not_underscore [of "i mod 10"] show False by simp
qed

lemma map_of_own_fields:
  "map_of (own_fields v) (show_nat i)
     = (case get_index (Some v) i of Inr x \<Rightarrow> x | Inl e \<Rightarrow> None)"
  by (cases v) (simp_all add: map_of_indexed)

lemma map_of_spread:
  "map_of (spread nets) (show_nat i) = (case get_index nets i of Inr v \<Rightarrow> v | Inl e \<Rightarrow> None)"
proof (cases nets)
  case None
  then show ?thesis by simp
next
  case (Some v)
  have "map_of (spread (Some v)) (show_nat i) = map_of (own_fields v) (show_nat i)"
    using map_of_filter_key [OF show_nat_not_proto] by simp
  then show ?thesis unfolding Some by (simp only: map_of_own_fields)
qed

lemma prior_networks:
  "(case get_index (oldNetworks (read_prior f T2 h opt)) T of Inr v \<Rightarrow> v | Inl e \<Rightarrow> None)
     = stored_entry f T"
  by (auto simp: read_prior_def stored_entry_def split: option.splits artifact_file.splits sum.splits)

lemma newArtifact_networks:
  "get_field (Some (newArtifact pr name T2 cd)) ''networks''
     = Inr (Some (JObj (AList.update (show_nat T2) cd
         (if currentArtifactString pr then spread (oldNetworks pr) else []))))"
  by (simp add: newArtifact_def update_conv')

lemma prior_no_string: "\<not> currentArtifactString (read_prior f T2 h opt) \<Longrightarrow> f = None"
  by (auto simp: read_prior_def split: option.splits artifact_file.splits sum.splits)

lemma merge_entries:
  "stored_entry (Some (Parsed (newArtifact (read_prior f T2 h opt) name T2 cd))) T
     = (if T = T2 then Some cd else stored_entry f T)"
proof (cases "currentArtifactString (read_prior f T2 h opt)")
  case True
  then show ?thesis
    unfolding stored_entry_def artifact_file.case option.case newArtifact_networks sum.case
    using prior_networks [of f T2 h opt T]
    by (simp add: update_conv' map_of_spread show_nat_eq_iff stored_entry_def)
next
  case False
  from prior_no_string [OF this] have "stored_entry f T = None" by (simp add: stored_entry_def)
  with False show ?thesis
    unfolding stored_entry_def artifact_file.case option.case newArtifact_networks sum.case
    by (simp add: show_nat_eq_iff)
qed

section \<open>Properties of the compilation of one unit\<close>

lemma emitted_Nil: "emitted st [] = st"
  by (simp add: emitted_def)

lemma emitted_emitted: "emitted (emitted st ds) ds' = emitted st (ds @ ds')"
  by (simp add: emitted_def)

lemma errors_object_undefined:
  "js_get (map (\<lambda>k. (k, True)) errs) n = Undefined \<Longrightarrow> n \<notin> set errs"
  by (auto simp: js_get_def map_of_eq_None_iff image_iff split: option.splits if_splits)

lemma report_errors_emitted:
  "report_errors msgs st = (r, st') \<Longrightarrow>
     \<exists>ds. st' = emitted st ds \<and> distinct ds \<and> set ds \<inter> set (errors st) = {}"
proof (induction msgs arbitrary: st)
  case Nil
  then have "st' = emitted st []" by (simp add: emitted_Nil)
  then show ?case by fastforce
next
  case (Cons errMsg rest)
  show ?case
  proof (cases "getNormalizedErrMsg errMsg")
    case (Inl err)
    with Cons.prems have "st' = emitted st []" by (simp add: emitted_Nil)
    then show ?thesis by fastforce
  next
    case (Inr n)
    show ?thesis
    proof (cases "js_get (map (\<lambda>k. (k, True)) (errors st)) n = Undefined")
      case True
      then have nn: "n \<notin> set (errors st)" by (rule errors_object_undefined)
      have e: "st\<lparr>errors := errors st @ [n], log := log st @ [LogDiagnostic n]\<rparr> = emitted st [n]"
        by (simp add: emitted_def)
      from Cons.prems Inr True have "report_errors rest (emitted st [n]) = (r, st')"
        by (simp add: e)
      from Cons.IH [OF this] obtain ds where ds: "st' = emitted (emitted st [n]) ds" "distinct ds"
        "set ds \<inter> set (errors (emitted st [n])) = {}" by blast
      then have "st' = emitted st (n # ds)" "distinct (n # ds)" "set (n # ds) \<inter> set (errors st) = {}"
        using nn by (auto simp: emitted_emitted emitted_def)
      then show ?thesis by blast
    next
      case False
      with Cons.prems Inr have "report_errors rest st = (r, st')" by simp
      from Cons.IH [OF this] show ?thesis .
    qed
  qed
qed

lemma compile_unit_not_invoked:
  "\<not> (\<exists>v b. parseSolidityVersion src = Inr v \<and> selectBackend e v = Inr b)
     \<Longrightarrow> \<exists>err. compile_unit e s n src pr st = (Inl err, st)"
  by (cases "parseSolidityVersion src"; simp add: compile_unit_def Let_def)
     (auto split: sum.splits)

lemma compile_unit_invoked:
  assumes "parseSolidityVersion src = Inr v" "selectBackend e v = Inr b"
    "compile_unit e s n src pr st = (r, st')"
  shows "\<exists>ds. st' = invoked st n ds \<and> distinct ds \<and> set ds \<inter> set (errors st) = {}"
proof -
  let ?st1 = "st\<lparr>log := log st @ [LogCompiling n], backend_calls := backend_calls st @ [n]\<rparr>"
  let ?c = "b (n, src) (optimizerEnabled e) (createFindImports s)"
  obtain raised st2 where rs: "(case compile_errors ?c of None \<Rightarrow> (None, ?st1)
      | Some msgs \<Rightarrow> report_errors msgs ?st1) = (raised, st2)" by fastforce
  have "\<exists>ds. st2 = emitted ?st1 ds \<and> distinct ds \<and> set ds \<inter> set (errors ?st1) = {}"
  proof (cases "compile_errors ?c")
    case None
    with rs have "st2 = emitted ?st1 []" by (simp add: emitted_Nil)
    then show ?thesis by fastforce
  next
    case (Some msgs)
    with rs have "report_errors msgs ?st1 = (raised, st2)" by simp
    then show ?thesis by (rule report_errors_emitted)
  qed
  moreover have "st' = st2"
    using assms rs
    by (simp add: compile_unit_def Let_def split: option.splits js_prop.splits)
  ultimately show ?thesis by (simp add: invoked_def)
qed

lemma compile_unit_artifact:
  assumes "compile_unit e s n src pr st = (Inr a, st')"
  shows "\<exists>v abi bin. a = newArtifact pr (basename_ext n ''.sol'') (networkId e)
           (contractData v (''0x'' @ sha3_hex e src) (optimizerEnabled e) abi bin (date_now e n))"
  using assms
  by (auto simp: compile_unit_def Let_def split: sum.splits option.splits js_prop.splits prod.splits)

section \<open>Properties of a task that goes on to write\<close>

lemma resume_read_write:
  assumes "resume e s (AwaitRead n src) st = (AwaitWrite n' p a, st1)"
  shows "n' = n \<and> p = currentArtifactPath e n \<and> files st1 = files st
    \<and> (\<exists>v abi bin. a = newArtifact
          (read_prior (files st p) (networkId e) (''0x'' @ sha3_hex e src) (optimizerEnabled e))
          (basename_ext n ''.sol'') (networkId e)
          (contractData v (''0x'' @ sha3_hex e src) (optimizerEnabled e) abi bin (date_now e n)))"
proof -
  let ?pr = "read_prior (files st (currentArtifactPath e n)) (networkId e) (''0x'' @ sha3_hex e src)
      (optimizerEnabled e)"
  from assms have cu: "compile_unit e s n src ?pr st = (Inr a, st1)"
    and n: "n' = n" and p: "p = currentArtifactPath e n"
    by (auto simp: Let_def split: if_splits sum.splits prod.splits)
  have "files st1 = files st"
  proof (cases "\<exists>v b. parseSolidityVersion src = Inr v \<and> selectBackend e v = Inr b")
    case False
    from compile_unit_not_invoked [OF this, of s n ?pr st] cu show ?thesis by auto
  next
    case True
    then obtain v b where "parseSolidityVersion src = Inr v" "selectBackend e v = Inr b" by blast
    from compile_unit_invoked [OF this cu] show ?thesis by (auto simp: invoked_def emitted_def)
  qed
  with compile_unit_artifact [OF cu] n p show ?thesis by simp
qed

lemma prior_parsed:
  "currentArtifactString (read_prior (Some (Parsed a)) T h opt)
   \<and> currentArtifact (read_prior (Some (Parsed a)) T h opt) = Some a"
  by (auto simp: read_prior_def split: sum.splits)

lemma newArtifact_fields:
  "currentArtifactString pr \<Longrightarrow> k \<noteq> ''networks''
     \<Longrightarrow> map_of (own_fields (newArtifact pr name T cd)) k = map_of (spread (currentArtifact pr)) k"
  by (simp add: newArtifact_def update_conv')

section \<open>Properties of the staleness decision\<close>

lemma entry_stale_spec:
  "(case entry_stale (Some entry) h opt of Inl e \<Rightarrow> True | Inr b \<Rightarrow> b)
     = (stored_digest entry \<noteq> Some (JStr h) \<or> stored_flag entry \<noteq> Some (JNum opt))"
  by (cases entry)
     (auto simp: entry_stale_def stored_digest_def stored_flag_def strict_ne_string_def
        strict_ne_number_def)

lemma shouldCompile_spec: "shouldCompile (read_prior f T h opt) = stale_by_spec f T h opt"
proof (cases f)
  case None
  then show ?thesis by (simp add: read_prior_def stale_by_spec_def stored_entry_def)
next
  case (Some c)
  show ?thesis
  proof (cases c)
    case Unparseable
    with Some show ?thesis by (simp add: read_prior_def stale_by_spec_def stored_entry_def)
  next
    case (Parsed a)
    show ?thesis
    proof (cases "stored_entry f T")
      case None
      then have "shouldCompile (read_prior f T h opt)"
        unfolding Some Parsed
        by (auto simp: read_prior_def stored_entry_def entry_stale_def split: sum.splits)
      with None show ?thesis by (simp add: stale_by_spec_def)
    next
      case (Some entry)
      then have "shouldCompile (read_prior f T h opt)
          = (case entry_stale (Some entry) h opt of Inl e \<Rightarrow> True | Inr b \<Rightarrow> b)"
        unfolding \<open>f = Some c\<close> Parsed
        by (auto simp: read_prior_def stored_entry_def split: sum.splits)
      with Some show ?thesis by (simp add: stale_by_spec_def entry_stale_spec)
    qed
  qed
qed

lemma version_plays_no_part:
  assumes "stored_entry f T = Some (JObj kvs)"
    "stored_entry f' T = Some (JObj (AList.update ''solc_version'' v kvs))"
  shows "stale_by_spec f' T h opt = stale_by_spec f T h opt"
  using assms
  by (simp add: stale_by_spec_def stored_digest_def stored_flag_def update_conv')

lemma resume_read_backend_calls:
  "backend_calls (snd (resume e s (AwaitRead n src) st)) =
     (if stale_by_spec (files st (currentArtifactPath e n)) (networkId e) (''0x'' @ sha3_hex e src)
            (optimizerEnabled e)
         \<and> (\<exists>v b. parseSolidityVersion src = Inr v \<and> selectBackend e v = Inr b)
      then backend_calls st @ [n] else backend_calls st)"
proof -
  let ?pr = "read_prior (files st (currentArtifactPath e n)) (networkId e) (''0x'' @ sha3_hex e src)
      (optimizerEnabled e)"
  obtain r st' where cu: "compile_unit e s n src ?pr st = (r, st')" by fastforce
  show ?thesis
  proof (cases "shouldCompile ?pr")
    case False
    then show ?thesis using shouldCompile_spec by (simp add: Let_def)
  next
    case True
    show ?thesis
    proof (cases "\<exists>v b. parseSolidityVersion src = Inr v \<and> selectBackend e v = Inr b")
      case False
      from compile_unit_not_invoked [OF this] obtain err where
        "compile_unit e s n src ?pr st = (Inl err, st)" by blast
      with True False show ?thesis by (simp add: Let_def)
    next
      case ex: True
      then obtain v b where "parseSolidityVersion src = Inr v" "selectBackend e v = Inr b" by blast
      from compile_unit_invoked [OF this cu] obtain ds where "st' = invoked st n ds" by blast
      then have "backend_calls st' = backend_calls st @ [n]" by (simp add: invoked_def emitted_def)
      with True ex cu shouldCompile_spec show ?thesis
        by (simp add: Let_def split: sum.splits)
    qed
  qed
qed

section \<open>Properties of a run\<close>

lemma diagnostics_append: "diagnostics (a @ b) = diagnostics a @ diagnostics b"
  by (induction a rule: diagnostics.induct) simp_all

lemma diagnostics_map: "diagnostics (map LogDiagnostic ds) = ds"
  by (induction ds) simp_all

lemma resume_cases:
  assumes "resume e s t st = (t', st')"
  shows "st' = st
    \<or> (\<exists>n ds. st' = invoked st n ds \<and> distinct ds \<and> set ds \<inter> set (errors st) = {})
    \<or> (\<exists>p a n. st' = st\<lparr>files := (files st)(p \<mapsto> Parsed a), log := log st @ [LogSaved n]\<rparr>)"
proof (cases t)
  case (AwaitRead n src)
  let ?pr = "read_prior (files st (currentArtifactPath e n)) (networkId e) (''0x'' @ sha3_hex e src)
      (optimizerEnabled e)"
  obtain r st1 where cu: "compile_unit e s n src ?pr st = (r, st1)" by fastforce
  show ?thesis
  proof (cases "shouldCompile ?pr")
    case False
    with assms AwaitRead show ?thesis by (simp add: Let_def)
  next
    case True
    with assms AwaitRead cu have st': "st' = st1"
      by (auto simp: Let_def split: sum.splits)
    show ?thesis
    proof (cases "\<exists>v b. parseSolidityVersion src = Inr v \<and> selectBackend e v = Inr b")
      case False
      from compile_unit_not_invoked [OF this, of s n ?pr st] cu st' show ?thesis by auto
    next
      case True
      then obtain v b where "parseSolidityVersion src = Inr v" "selectBackend e v = Inr b" by blast
      from compile_unit_invoked [OF this cu] st' show ?thesis by blast
    qed
  qed
next
  case (AwaitWrite n p a)
  show ?thesis
  proof (cases "write_ok e p")
    case True
    with assms AwaitWrite
    have "st' = st\<lparr>files := (files st)(p \<mapsto> Parsed a), log := log st @ [LogSaved n]\<rparr>" by simp
    then show ?thesis by blast
  next
    case False
    with assms AwaitWrite show ?thesis by simp
  qed
next
  case Fulfilled
  with assms show ?thesis by simp
next
  case (Rejected err)
  with assms show ?thesis by simp
qed

lemma deduplicated_resume:
  assumes "deduplicated base st" "resume e s t st = (t', st')"
  shows "deduplicated base (st'\<lparr>tasks := ts\<rparr>)"
proof -
  from assms(1) obtain new where new: "log st = base @ new" "distinct (diagnostics new)"
    "set (diagnostics new) \<subseteq> set (errors st)" unfolding deduplicated_def by blast
  from resume_cases [OF assms(2)] consider "st' = st"
    | n ds where "st' = invoked st n ds" "distinct ds" "set ds \<inter> set (errors st) = {}"
    | p a n where "st' = st\<lparr>files := (files st)(p \<mapsto> Parsed a), log := log st @ [LogSaved n]\<rparr>"
    by blast
  then show ?thesis
  proof cases
    case 1
    with new show ?thesis unfolding deduplicated_def by simp
  next
    case 2
    let ?new = "new @ LogCompiling n # map LogDiagnostic ds"
    have "log (st'\<lparr>tasks := ts\<rparr>) = base @ ?new" "errors (st'\<lparr>tasks := ts\<rparr>) = errors st @ ds"
      using 2(1) new(1) by (simp_all add: invoked_def emitted_def)
    moreover have "diagnostics ?new = diagnostics new @ ds"
      by (simp add: diagnostics_append diagnostics_map)
    moreover have "distinct (diagnostics new @ ds)" using new(2,3) 2(2,3) by auto
    ultimately show ?thesis unfolding deduplicated_def using new(3) by auto
  next
    case 3
    let ?new = "new @ [LogSaved n]"
    have "log (st'\<lparr>tasks := ts\<rparr>) = base @ ?new" "errors (st'\<lparr>tasks := ts\<rparr>) = errors st"
      using 3 new(1) by simp_all
    moreover have "diagnostics ?new = diagnostics new" by (simp add: diagnostics_append)
    ultimately show ?thesis unfolding deduplicated_def using new(2,3) by auto
  qed
qed

lemma deduplicated_step: "deduplicated base st \<Longrightarrow> deduplicated base (step e s i st)"
proof (cases "i < length (tasks st)")
  case True
  assume d: "deduplicated base st"
  obtain t' st' where r: "resume e s (tasks st ! i) st = (t', st')" by fastforce
  from deduplicated_resume [OF d r] True r show ?thesis by (simp add: step_def)
next
  case False
  assume "deduplicated base st"
  with False show ?thesis by (simp add: step_def)
qed

lemma deduplicated_run:
  "deduplicated base st \<Longrightarrow> deduplicated base (run_schedule e s sched st)"
  by (induction sched arbitrary: st) (simp_all add: deduplicated_step)

lemma deduplicated_compileAll: "deduplicated (log st) (compileAll e s st)"
proof -
  have "\<exists>new. log (compileAll e s st) = log st @ new \<and> diagnostics new = []"
    by (simp add: compileAll_def)
  moreover have "errors (compileAll e s st) = []" by (simp add: compileAll_def Let_def)
  ultimately show ?thesis unfolding deduplicated_def by auto
qed

lemma run_diagnostics_distinct:
  "distinct (diagnostics (drop (length (log st)) (log (run_schedule e s sched (compileAll e s st)))))"
proof -
  have "deduplicated (log st) (run_schedule e s sched (compileAll e s st))"
    by (rule deduplicated_run) (rule deduplicated_compileAll)
  then obtain new where "log (run_schedule e s sched (compileAll e s st)) = log st @ new"
    "distinct (diagnostics new)" unfolding deduplicated_def by blast
  then show ?thesis by simp
qed

section \<open>The task list plays no part in a task\<close>

lemma emitted_tasks: "emitted (st\<lparr>tasks := ts\<rparr>) ds = (emitted st ds)\<lparr>tasks := ts\<rparr>"
  by (simp add: emitted_def)




lemma resume_keeps_tasks: "resume e s t st = (t', st') \<Longrightarrow> tasks st' = tasks st"
  using resume_cases [of e s t st t' st'] by (auto simp: invoked_def emitted_def)


section \<open>Properties of two runs in succession\<close>

lemma contractData_fresh:
  "fresh e src (Some (Parsed (newArtifact
      (read_prior f (networkId e) (''0x'' @ sha3_hex e src) (optimizerEnabled e)) name (networkId e)
      (contractData v (''0x'' @ sha3_hex e src) (optimizerEnabled e) abi bin t))))"
  unfolding fresh_def stale_by_spec_def merge_entries
  by (simp add: contractData_def stored_digest_def stored_flag_def)

lemma resume_read_result:
  assumes "resume e s (AwaitRead n src) st = (t', st')"
  shows "files st' = files st \<and> task_ok e (n, src) t' (files st)"
proof -
  let ?p = "currentArtifactPath e n"
  let ?pr = "read_prior (files st ?p) (networkId e) (''0x'' @ sha3_hex e src) (optimizerEnabled e)"
  show ?thesis
  proof (cases "shouldCompile ?pr")
    case False
    with assms have "t' = Fulfilled" "st' = st" by (simp_all add: Let_def)
    moreover from False have "fresh e src (files st ?p)"
      by (simp add: fresh_def shouldCompile_spec)
    ultimately show ?thesis by simp
  next
    case True
    obtain r st1 where cu: "compile_unit e s n src ?pr st = (r, st1)" by fastforce
    show ?thesis
    proof (cases r)
      case (Inl err)
      with assms True cu have t: "t' = Rejected err" "st' = st1" by (simp_all add: Let_def)
      have "files st1 = files st"
      proof (cases "\<exists>v b. parseSolidityVersion src = Inr v \<and> selectBackend e v = Inr b")
        case False
        from compile_unit_not_invoked [OF this, of s n ?pr st] cu show ?thesis by auto
      next
        case True
        then obtain v b where "parseSolidityVersion src = Inr v" "selectBackend e v = Inr b" by blast
        from compile_unit_invoked [OF this cu] show ?thesis by (auto simp: invoked_def emitted_def)
      qed
      with t show ?thesis by simp
    next
      case (Inr a)
      with assms True cu have t: "resume e s (AwaitRead n src) st = (AwaitWrite n ?p a, st')"
        "t' = AwaitWrite n ?p a"
        by (simp_all add: Let_def)
      from resume_read_write [OF t(1)] obtain v abi bin where "files st' = files st"
        "a = newArtifact ?pr (basename_ext n ''.sol'') (networkId e)
          (contractData v (''0x'' @ sha3_hex e src) (optimizerEnabled e) abi bin (date_now e n))"
        by blast
      then show ?thesis unfolding t(2)
        using contractData_fresh [of e src "files st ?p" "basename_ext n ''.sol''" v abi bin
            "date_now e n"]
        by simp
    qed
  qed
qed

lemma task_ok_files:
  "task_ok e u t fs \<Longrightarrow> fs' (currentArtifactPath e (fst u)) = fs (currentArtifactPath e (fst u))
     \<Longrightarrow> task_ok e u t fs'"
  by (cases u; cases t) simp_all

lemma built_resume:
  assumes d: "distinct (map (\<lambda>u. currentArtifactPath e (fst u)) sources)"
    and b: "built e sources st" and j: "j < length sources"
    and r: "resume e sources (tasks st ! j) st = (t', st')"
  shows "task_ok e (sources ! j) t' (files st')
      \<and> (\<forall>i < length sources. i \<noteq> j \<longrightarrow>
            files st' (currentArtifactPath e (fst (sources ! i)))
              = files st (currentArtifactPath e (fst (sources ! i))))"
proof -
  from b have len: "length (tasks st) = length sources"
    and ok: "\<And>i. i < length sources \<Longrightarrow> task_ok e (sources ! i) (tasks st ! i) (files st)"
    by (simp_all add: built_def)
  obtain n src where u: "sources ! j = (n, src)" by fastforce
  have okj: "task_ok e (n, src) (tasks st ! j) (files st)" using ok [of j] j u by simp
  have "task_ok e (n, src) t' (files st')
      \<and> (\<forall>i < length sources. i \<noteq> j \<longrightarrow>
            files st' (currentArtifactPath e (fst (sources ! i)))
              = files st (currentArtifactPath e (fst (sources ! i))))"
  proof (cases "tasks st ! j")
    case (AwaitRead n' src')
    with okj have e: "n' = n" "src' = src" by simp_all
    from r AwaitRead e have "resume e sources (AwaitRead n src) st = (t', st')" by simp
    from resume_read_result [OF this] have "files st' = files st" "task_ok e (n, src) t' (files st)"
      by simp_all
    then show ?thesis by simp
  next
    case (AwaitWrite n' p a)
    with okj have p: "p = currentArtifactPath e n" and fr: "fresh e src (Some (Parsed a))"
      by simp_all
    show ?thesis
    proof (cases "write_ok e p")
      case False
      with r AwaitWrite have "t' = Rejected WriteFailed" "st' = st" by simp_all
      then show ?thesis by simp
    next
      case w: True
      with r AwaitWrite have t': "t' = Fulfilled"
        and f: "files st' = (files st)(p \<mapsto> Parsed a)" by auto
      have "currentArtifactPath e (fst (sources ! i)) \<noteq> p" if "i < length sources" "i \<noteq> j" for i
      proof -
        from d that j
        have "map (\<lambda>u. currentArtifactPath e (fst u)) sources ! i
            \<noteq> map (\<lambda>u. currentArtifactPath e (fst u)) sources ! j"
          by (simp add: nth_eq_iff_index_eq del: nth_map)
        with that j u p show ?thesis by simp
      qed
      with t' f fr p show ?thesis by simp
    qed
  next
    case Fulfilled
    with r have "t' = Fulfilled" "st' = st" by simp_all
    with okj Fulfilled show ?thesis by simp
  next
    case (Rejected err)
    with r have "t' = Rejected err" "st' = st" by simp_all
    then show ?thesis by simp
  qed
  with u show ?thesis by simp
qed

lemma built_step:
  assumes d: "distinct (map (\<lambda>u. currentArtifactPath e (fst u)) sources)"
    and b: "built e sources st"
  shows "built e sources (step e sources j st)"
proof (cases "j < length (tasks st)")
  case False
  with b show ?thesis by (simp add: step_def)
next
  case True
  from b have len: "length (tasks st) = length sources"
    and ok: "\<And>i. i < length sources \<Longrightarrow> task_ok e (sources ! i) (tasks st ! i) (files st)"
    by (simp_all add: built_def)
  obtain t' st' where r: "resume e sources (tasks st ! j) st = (t', st')" by fastforce
  from resume_keeps_tasks [OF r] have kt: "tasks st' = tasks st" .
  have st2: "step e sources j st = st'\<lparr>tasks := (tasks st)[j := t']\<rparr>"
    using True r kt by (simp add: step_def)
  from True len have j: "j < length sources" by simp
  note main = built_resume [OF d b j r]
  show ?thesis unfolding built_def st2
  proof (intro conjI allI impI)
    show "length (tasks (st'\<lparr>tasks := (tasks st)[j := t']\<rparr>)) = length sources"
      using len by simp
    fix i assume i: "i < length sources"
    show "task_ok e (sources ! i) (tasks (st'\<lparr>tasks := (tasks st)[j := t']\<rparr>) ! i)
        (files (st'\<lparr>tasks := (tasks st)[j := t']\<rparr>))"
    proof (cases "i = j")
      case True
      with main i len show ?thesis by simp
    next
      case False
      with main i have "files st' (currentArtifactPath e (fst (sources ! i)))
          = files st (currentArtifactPath e (fst (sources ! i)))" by blast
      from task_ok_files [of e "sources ! i" "tasks st ! i" "files st" "files st'", OF ok [OF i] this]
        False show ?thesis by simp
    qed
  qed
qed

lemma built_run:
  "distinct (map (\<lambda>u. currentArtifactPath e (fst u)) sources) \<Longrightarrow> built e sources st
     \<Longrightarrow> built e sources (run_schedule e sources sched st)"
  by (induction sched arbitrary: st) (simp_all add: built_step)

lemma built_compileAll: "built e sources (compileAll e sources st)"
  by (auto simp: built_def compileAll_def Let_def split: prod.splits)

lemma idle_compileAll: "idle sources st1 (compileAll e sources st1)"
  by (auto simp: idle_def compileAll_def Let_def split: prod.splits)

lemma idle_step:
  assumes fr: "\<And>i. i < length sources \<Longrightarrow>
        fresh e (snd (sources ! i)) (files st1 (currentArtifactPath e (fst (sources ! i))))"
    and id: "idle sources st1 st"
  shows "idle sources st1 (step e sources j st)"
proof (cases "j < length (tasks st)")
  case False
  with id show ?thesis by (simp add: step_def)
next
  case True
  from id have f: "files st = files st1" and len: "length (tasks st) = length sources"
    and sh: "\<And>i. i < length sources \<Longrightarrow>
        tasks st ! i = AwaitRead (fst (sources ! i)) (snd (sources ! i)) \<or> tasks st ! i = Fulfilled"
    by (simp_all add: idle_def)
  have "resume e sources (tasks st ! j) st = (Fulfilled, st)"
  proof (cases "tasks st ! j = Fulfilled")
    case True
    then show ?thesis by simp
  next
    case False
    with sh [of j] True len
    have t: "tasks st ! j = AwaitRead (fst (sources ! j)) (snd (sources ! j))" by simp
    from fr [of j] True len f
    have "\<not> shouldCompile (read_prior (files st (currentArtifactPath e (fst (sources ! j))))
        (networkId e) (''0x'' @ sha3_hex e (snd (sources ! j))) (optimizerEnabled e))"
      by (simp add: fresh_def shouldCompile_spec)
    then show ?thesis unfolding t by (simp add: Let_def)
  qed
  then have s: "step e sources j st = st\<lparr>tasks := (tasks st)[j := Fulfilled]\<rparr>"
    using True by (simp add: step_def)
  have "(tasks st)[j := Fulfilled] ! i = AwaitRead (fst (sources ! i)) (snd (sources ! i))
      \<or> (tasks st)[j := Fulfilled] ! i = Fulfilled" if "i < length sources" for i
    using sh [OF that] that len by (cases "i = j") simp_all
  then show ?thesis unfolding s using id len by (simp add: idle_def)
qed

lemma idle_run:
  assumes "\<And>i. i < length sources \<Longrightarrow>
        fresh e (snd (sources ! i)) (files st1 (currentArtifactPath e (fst (sources ! i))))"
  shows "idle sources st1 st \<Longrightarrow> idle sources st1 (run_schedule e sources sched st)"
  by (induction sched arbitrary: st) (simp_all add: idle_step [OF assms])

lemma resume_calls:
  assumes "resume e s t st = (t', st')"
  shows "backend_calls st' = backend_calls st
    \<or> (\<exists>n src. t = AwaitRead n src \<and> backend_calls st' = backend_calls st @ [n])"
proof (cases t)
  case (AwaitRead n src)
  from resume_read_backend_calls [of e s n src st] assms AwaitRead show ?thesis
    by (auto split: if_splits)
next
  case (AwaitWrite n p a)
  with assms show ?thesis by (auto split: if_splits)
next
  case Fulfilled
  with assms show ?thesis by simp
next
  case (Rejected err)
  with assms show ?thesis by simp
qed

lemma fresh_resume:
  assumes "fresh e src (files st (currentArtifactPath e n))"
    "t = AwaitRead n src \<or> t = Fulfilled"
  shows "resume e s t st = (Fulfilled, st)"
proof -
  from assms(1) have "\<not> shouldCompile (read_prior (files st (currentArtifactPath e n))
        (networkId e) (''0x'' @ sha3_hex e src) (optimizerEnabled e))"
    by (simp add: fresh_def shouldCompile_spec)
  with assms(2) show ?thesis by (auto simp: Let_def)
qed

lemma skipping_step:
  assumes d: "distinct (map (\<lambda>u. currentArtifactPath e (fst u)) sources)"
    and sk: "skipping e sources st1 st"
  shows "skipping e sources st1 (step e sources j st)"
proof (cases "j < length (tasks st)")
  case False
  with sk show ?thesis by (simp add: step_def)
next
  case True
  from sk have b: "built e sources st" by (simp add: skipping_def)
  then have len: "length (tasks st) = length sources" by (simp add: built_def)
  from sk obtain new where new: "backend_calls st = backend_calls st1 @ new"
    and good: "\<And>i. i < length sources \<Longrightarrow> tasks st1 ! i = Fulfilled \<Longrightarrow>
        fst (sources ! i) \<notin> set new
        \<and> fresh e (snd (sources ! i)) (files st (currentArtifactPath e (fst (sources ! i))))
        \<and> (tasks st ! i = AwaitRead (fst (sources ! i)) (snd (sources ! i))
             \<or> tasks st ! i = Fulfilled)"
    unfolding skipping_def by blast
  from True len have j: "j < length sources" by simp
  obtain t' st' where r: "resume e sources (tasks st ! j) st = (t', st')" by fastforce
  from resume_keeps_tasks [OF r] have kt: "tasks st' = tasks st" .
  have st2: "step e sources j st = st'\<lparr>tasks := (tasks st)[j := t']\<rparr>"
    using True r kt by (simp add: step_def)
  note main = built_resume [OF d b j r]
  have b2: "built e sources (step e sources j st)" by (rule built_step [OF d b])
  show ?thesis
  proof (cases "tasks st1 ! j = Fulfilled")
    case True
    from good [OF j True] fresh_resume [of e "snd (sources ! j)" st "fst (sources ! j)" "tasks st ! j" sources] r
    have same: "t' = Fulfilled" "st' = st" by auto
    have "fst (sources ! i) \<notin> set new
        \<and> fresh e (snd (sources ! i)) (files st (currentArtifactPath e (fst (sources ! i))))
        \<and> ((tasks st)[j := Fulfilled] ! i = AwaitRead (fst (sources ! i)) (snd (sources ! i))
             \<or> (tasks st)[j := Fulfilled] ! i = Fulfilled)"
      if "i < length sources" "tasks st1 ! i = Fulfilled" for i
      using good [OF that] that len by (cases "i = j") simp_all
    with new b2 show ?thesis unfolding skipping_def st2 same by auto
  next
    case False
    from resume_calls [OF r] consider "backend_calls st' = backend_calls st"
      | n src where "tasks st ! j = AwaitRead n src" "backend_calls st' = backend_calls st @ [n]"
      by blast
    then obtain extra where ex: "backend_calls st' = backend_calls st @ extra"
      "set extra \<subseteq> {fst (sources ! j)}"
    proof cases
      case 1
      then have "backend_calls st' = backend_calls st @ []" "set [] \<subseteq> {fst (sources ! j)}" by simp_all
      then show ?thesis by (rule that)
    next
      case 2
      from b j have "task_ok e (sources ! j) (tasks st ! j) (files st)" by (simp add: built_def)
      with 2(1) have "n = fst (sources ! j)" by (cases "sources ! j") simp
      with 2(2) have "backend_calls st' = backend_calls st @ [n]" "set [n] \<subseteq> {fst (sources ! j)}"
        by simp_all
      then show ?thesis by (rule that)
    qed
    have "fst (sources ! i) \<notin> set (new @ extra)
        \<and> fresh e (snd (sources ! i)) (files st' (currentArtifactPath e (fst (sources ! i))))
        \<and> ((tasks st)[j := t'] ! i = AwaitRead (fst (sources ! i)) (snd (sources ! i))
             \<or> (tasks st)[j := t'] ! i = Fulfilled)"
      if i: "i < length sources" "tasks st1 ! i = Fulfilled" for i
    proof -
      from i False have ij: "i \<noteq> j" by auto
      from d i(1) j ij
      have "map (\<lambda>u. currentArtifactPath e (fst u)) sources ! i
          \<noteq> map (\<lambda>u. currentArtifactPath e (fst u)) sources ! j"
        by (simp add: nth_eq_iff_index_eq del: nth_map)
      with i(1) j have "fst (sources ! i) \<noteq> fst (sources ! j)" by auto
      with ex(2) have "fst (sources ! i) \<notin> set extra" by auto
      moreover from main i(1) ij have "files st' (currentArtifactPath e (fst (sources ! i)))
          = files st (currentArtifactPath e (fst (sources ! i)))" by blast
      ultimately show ?thesis using good [OF i] ij by simp
    qed
    moreover have "backend_calls st' = backend_calls st1 @ (new @ extra)" using new ex(1) by simp
    ultimately show ?thesis using b2 unfolding skipping_def st2 [symmetric]
      unfolding st2 by auto
  qed
qed

lemma skipping_run:
  "distinct (map (\<lambda>u. currentArtifactPath e (fst u)) sources) \<Longrightarrow> skipping e sources st1 st
     \<Longrightarrow> skipping e sources st1 (run_schedule e sources sched st)"
  by (induction sched arbitrary: st) (simp_all add: skipping_step)

lemma skipping_compileAll:
  assumes "built e sources st1"
  shows "skipping e sources st1 (compileAll e sources st1)"
proof -
  have "fresh e (snd (sources ! i)) (files st1 (currentArtifactPath e (fst (sources ! i))))"
    if "i < length sources" "tasks st1 ! i = Fulfilled" for i
    using assms that by (cases "sources ! i") (auto simp: built_def)
  moreover have "tasks (compileAll e sources st1) ! i = AwaitRead (fst (sources ! i)) (snd (sources ! i))"
    if "i < length sources" for i
    using that by (simp add: compileAll_def Let_def split: prod.splits)
  moreover have "backend_calls (compileAll e sources st1) = backend_calls st1 @ []"
    "files (compileAll e sources st1) = files st1"
    by (simp_all add: compileAll_def Let_def)
  ultimately show ?thesis unfolding skipping_def using built_compileAll [of e sources st1]
    by (metis empty_iff empty_set)
qed

section \<open>The staleness claim\<close>

lemma show_nat_50: "show_nat 50 = ''50''"
  by (simp add: show_nat.simps digit_char_def)

lemma show_nat_1: "show_nat 1 = ''1''" "show_nat (Suc 0) = ''1''"
  by (simp_all add: show_nat.simps digit_char_def)

text \<open>The definitions that evaluating the small build unfolds.\<close>

lemmas eval_defs = example_env_def example_state_def example_backend_def failing_backend_def
  currentArtifactPath_def basename_ext_def basename_def read_prior_def compile_unit_def
  parseSolidityVersion_def match_here_def match_version_def version_alternatives_def
  dot_digits_def is_digit_def is_space_def selectBackend_def solcBinPath_def
  stale_by_spec_def stored_entry_def stored_digest_def stored_flag_def Let_def
  example_prior_def example_prior_state_def example_source_def entry_stale_def
  strict_ne_string_def strict_ne_number_def getNormalizedErrMsg_def replace_first_def
  line_terminator_def js_get_def object_prototype_names_def show_nat_50 show_nat_1
  newArtifact_def contractData_def example_proto_prior_def example_proto_state_def
  example_stray_env_def example_missing_env_def

text \<open>
  Claim C2, as stated, fails: a unit with no record is stale, but its text names no version,
  so the task is rejected before any backend is selected and none is called.
\<close>

theorem stale_unit_without_backend_call:
  "stale_by_spec (files example_state (currentArtifactPath example_env ''Bar.sol''))
       (networkId example_env) (''0x'' @ sha3_hex example_env ''contract Bar {}'')
       (optimizerEnabled example_env)
   \<and> resume example_env [(''Bar.sol'', ''contract Bar {}'')]
         (AwaitRead ''Bar.sol'' ''contract Bar {}'') example_state
       = (Rejected VersionNotFound, example_state)
   \<and> backend_calls example_state = []"
  by (simp add: eval_defs)

text \<open>
  Claim C2, amended. The task takes the recompilation branch exactly when no record entry
  exists for the unit and the target, or the stored digest differs from the digest of the
  current text, or the stored optimizer flag differs from the requested one; a file that
  cannot be read or parsed counts as no record; entries that differ in the stored
  compiler version only get the same decision. The backend is called exactly when the unit
  is stale and, in addition, its version resolves and a backend loads for it.
\<close>

theorem staleness_decision:
  "shouldCompile (read_prior f T h opt) = stale_by_spec f T h opt
   \<and> ((f = None \<or> f = Some Unparseable) \<longrightarrow> shouldCompile (read_prior f T h opt))
   \<and> (stored_entry f T = Some (JObj kvs)
        \<and> stored_entry f' T = Some (JObj (AList.update ''solc_version'' v kvs))
      \<longrightarrow> shouldCompile (read_prior f' T h opt) = shouldCompile (read_prior f T h opt))
   \<and> backend_calls (snd (resume e s (AwaitRead n src) st)) =
       (if stale_by_spec (files st (currentArtifactPath e n)) (networkId e)
             (''0x'' @ sha3_hex e src) (optimizerEnabled e)
          \<and> (\<exists>v b. parseSolidityVersion src = Inr v \<and> selectBackend e v = Inr b)
        then backend_calls st @ [n] else backend_calls st)"
proof (intro conjI impI)
  show "shouldCompile (read_prior f T h opt) = stale_by_spec f T h opt"
    by (rule shouldCompile_spec)
  show "shouldCompile (read_prior f T h opt)" if "f = None \<or> f = Some Unparseable"
    using that by (auto simp: read_prior_def)
  show "shouldCompile (read_prior f' T h opt) = shouldCompile (read_prior f T h opt)"
    if "stored_entry f T = Some (JObj kvs)
        \<and> stored_entry f' T = Some (JObj (AList.update ''solc_version'' v kvs))"
    using that version_plays_no_part [of f T kvs f' v h opt] by (simp add: shouldCompile_spec)
  show "backend_calls (snd (resume e s (AwaitRead n src) st)) =
       (if stale_by_spec (files st (currentArtifactPath e n)) (networkId e)
             (''0x'' @ sha3_hex e src) (optimizerEnabled e)
          \<and> (\<exists>v b. parseSolidityVersion src = Inr v \<and> selectBackend e v = Inr b)
        then backend_calls st @ [n] else backend_calls st)"
    by (rule resume_read_backend_calls)
qed

theorem staleness_decision_witness:
  "shouldCompile (read_prior None 50 ''0xab12'' 0)
   \<and> shouldCompile (read_prior (Some (Parsed (JObj [(''contract_name'', JStr ''Foo''),
         (''networks'', JObj [(''50'', JObj [(''solc_version'', JStr ''0.4.11''),
            (''keccak256'', JStr ''0xab12''), (''optimizer_enabled'', JNum 0)])])]))) 50 ''0xab12'' 0)
     = shouldCompile (read_prior (Some (Parsed (JObj [(''contract_name'', JStr ''Foo''),
         (''networks'', JObj [(''50'', JObj [(''solc_version'', JStr ''0.4.8''),
            (''keccak256'', JStr ''0xab12''), (''optimizer_enabled'', JNum 0)])])]))) 50 ''0xab12'' 0)"
proof -
  let ?kvs = "[(''solc_version'', JStr ''0.4.8''), (''keccak256'', JStr ''0xab12''),
      (''optimizer_enabled'', JNum 0)]"
  let ?f = "Some (Parsed (JObj [(''contract_name'', JStr ''Foo''),
      (''networks'', JObj [(''50'', JObj ?kvs)])]))"
  let ?f' = "Some (Parsed (JObj [(''contract_name'', JStr ''Foo''),
      (''networks'', JObj [(''50'', JObj [(''solc_version'', JStr ''0.4.11''),
            (''keccak256'', JStr ''0xab12''), (''optimizer_enabled'', JNum 0)])])]))"
  have s50: "show_nat 50 = ''50''" by (simp add: show_nat.simps digit_char_def)
  have h1: "stored_entry ?f 50 = Some (JObj ?kvs)" by (simp add: stored_entry_def s50)
  have h2: "stored_entry ?f' 50 = Some (JObj (AList.update ''solc_version'' (JStr ''0.4.11'') ?kvs))"
    by (simp add: stored_entry_def s50)
  from staleness_decision [of None 50 "''0xab12''" 0]
  have a: "shouldCompile (read_prior None 50 ''0xab12'' 0)" by blast
  from staleness_decision [of ?f 50 "''0xab12''" 0 ?kvs ?f' "JStr ''0.4.11''"] h1 h2
  have b: "shouldCompile (read_prior ?f' 50 ''0xab12'' 0) = shouldCompile (read_prior ?f 50 ''0xab12'' 0)"
    by blast
  from a b show ?thesis by blast
qed

section \<open>The merge claims\<close>

text \<open>
  Claim C1. Merging the data compiled for a target into the record of a unit leaves the
  entry of every other target as it was, for every prior artifact file, readable or not, and
  every pair of distinct targets; so does the task that reads the file, compiles and writes
  it back.
\<close>

theorem cross_target_isolation:
  "(T1 \<noteq> T2 \<longrightarrow>
      stored_entry (Some (Parsed (newArtifact (read_prior f T2 h opt) name T2 cd))) T1
        = stored_entry f T1)
   \<and> (T1 \<noteq> networkId e
        \<and> resume e s (AwaitRead n src) st = (AwaitWrite n p a, st1)
        \<and> resume e s (AwaitWrite n p a) st1 = (Fulfilled, st2)
      \<longrightarrow> stored_entry (files st2 p) T1 = stored_entry (files st p) T1
          \<and> (\<forall>q. q \<noteq> p \<longrightarrow> files st2 q = files st q))"
proof (rule conjI; rule impI)
  assume "T1 \<noteq> T2"
  then show "stored_entry (Some (Parsed (newArtifact (read_prior f T2 h opt) name T2 cd))) T1
      = stored_entry f T1"
    by (simp add: merge_entries)
next
  assume a: "T1 \<noteq> networkId e
      \<and> resume e s (AwaitRead n src) st = (AwaitWrite n p a, st1)
      \<and> resume e s (AwaitWrite n p a) st1 = (Fulfilled, st2)"
  from a resume_read_write [of e s n src st n p a st1] obtain v abi bin where
    f1: "files st1 = files st" and
    art: "a = newArtifact
          (read_prior (files st p) (networkId e) (''0x'' @ sha3_hex e src) (optimizerEnabled e))
          (basename_ext n ''.sol'') (networkId e)
          (contractData v (''0x'' @ sha3_hex e src) (optimizerEnabled e) abi bin (date_now e n))"
    by blast
  from a have f2: "files st2 = (files st1)(p \<mapsto> Parsed a)"
    by (auto split: if_splits)
  from a have "stored_entry (Some (Parsed a)) T1 = stored_entry (files st p) T1"
    unfolding art by (simp add: merge_entries)
  with f1 f2 show "stored_entry (files st2 p) T1 = stored_entry (files st p) T1
      \<and> (\<forall>q. q \<noteq> p \<longrightarrow> files st2 q = files st q)"
    by simp
qed

theorem cross_target_isolation_witness:
  "stored_entry (Some (Parsed (newArtifact
       (read_prior (Some (Parsed (JObj [(''contract_name'', JStr ''Foo''),
          (''networks'', JObj [(''1'', JObj [(''keccak256'', JStr ''0x01'')])])]))) 50 ''0xab12'' 0)
       ''Foo'' 50 (JObj [(''keccak256'', JStr ''0xab12'')])))) 1
     = Some (JObj [(''keccak256'', JStr ''0x01'')])"
proof -
  let ?f = "Some (Parsed (JObj [(''contract_name'', JStr ''Foo''),
          (''networks'', JObj [(''1'', JObj [(''keccak256'', JStr ''0x01'')])])]))"
  have s1: "show_nat (Suc 0) = ''1''" by (simp add: show_nat.simps digit_char_def)
  have old: "stored_entry ?f 1 = Some (JObj [(''keccak256'', JStr ''0x01'')])"
    by (simp add: stored_entry_def s1)
  have ne: "(1::nat) \<noteq> 50" by simp
  from cross_target_isolation [of 1 50 ?f "''0xab12''" 0 "''Foo''"
      "JObj [(''keccak256'', JStr ''0xab12'')]"]
  have "(1::nat) \<noteq> 50 \<longrightarrow>
      stored_entry (Some (Parsed (newArtifact (read_prior ?f 50 ''0xab12'' 0) ''Foo'' 50
        (JObj [(''keccak256'', JStr ''0xab12'')])))) 1 = stored_entry ?f 1"
    by (rule conjunct1)
  from this [rule_format, OF ne] old show ?thesis by (rule trans)
qed

text \<open>
  Claim C9, as stated, fails: a top-level field of the prior artifact named \<^verbatim>\<open>__proto__\<close>
  is not carried over. The spread assigns it to the new object, where the assignment sets
  the prototype and makes no field, so the artifact written has none.
\<close>

theorem proto_field_not_carried_over:
  "files example_proto_state (currentArtifactPath example_env ''Foo.sol'')
     = Some (Parsed example_proto_prior)
   \<and> map_of (own_fields example_proto_prior) ''__proto__'' = Some (JObj [(''schema'', JStr ''1'')])
   \<and> fst (resume example_env [(''Foo.sol'', example_source)] (AwaitRead ''Foo.sol'' example_source)
          example_proto_state)
       = AwaitWrite ''Foo.sol'' ''artifacts/Foo.json''
           (JObj [(''contract_name'', JStr ''Foo''),
                  (''networks'', JObj [(''50'',
                     contractData ''0.4.11'' ''0xab12'' 0 (JArr []) ''0x60'' 1500000000000)])])
   \<and> map_of (own_fields (JObj [(''contract_name'', JStr ''Foo''),
                  (''networks'', JObj [(''50'',
                     contractData ''0.4.11'' ''0xab12'' 0 (JArr []) ''0x60'' 1500000000000)])]))
         ''__proto__'' = None"
  by (simp add: eval_defs)

text \<open>
  Claim C9, amended. When the artifact file of a unit parses and the unit is recompiled,
  every top-level field of the new artifact other than \<^verbatim>\<open>networks\<close>, \<^verbatim>\<open>contract_name\<close>
  among them, is a field of the prior artifact with the same value; and every top-level field
  of the prior artifact other than \<^verbatim>\<open>networks\<close> and other than one named \<^verbatim>\<open>__proto__\<close>
  is a field of the new artifact with the same value.
\<close>

theorem new_artifact_fields_from_prior:
  "resume e s (AwaitRead n src) st = (AwaitWrite n p a, st1)
   \<and> files st (currentArtifactPath e n) = Some (Parsed prior) \<and> k \<noteq> ''networks''
   \<longrightarrow> (\<forall>v. map_of (own_fields a) k = Some v \<longrightarrow> map_of (own_fields prior) k = Some v)
       \<and> (k \<noteq> ''__proto__'' \<longrightarrow> map_of (own_fields a) k = map_of (own_fields prior) k)"
proof
  assume h: "resume e s (AwaitRead n src) st = (AwaitWrite n p a, st1)
      \<and> files st (currentArtifactPath e n) = Some (Parsed prior) \<and> k \<noteq> ''networks''"
  from h resume_read_write [of e s n src st n p a st1] obtain v abi bin where
    p: "p = currentArtifactPath e n" and
    art: "a = newArtifact
          (read_prior (files st p) (networkId e) (''0x'' @ sha3_hex e src) (optimizerEnabled e))
          (basename_ext n ''.sol'') (networkId e)
          (contractData v (''0x'' @ sha3_hex e src) (optimizerEnabled e) abi bin (date_now e n))"
    by blast
  from h p have f: "files st p = Some (Parsed prior)" by simp
  have cs: "currentArtifactString (read_prior (Some (Parsed prior)) (networkId e)
        (''0x'' @ sha3_hex e src) (optimizerEnabled e))"
    and ca: "currentArtifact (read_prior (Some (Parsed prior)) (networkId e)
        (''0x'' @ sha3_hex e src) (optimizerEnabled e)) = Some prior"
    using prior_parsed [of prior "networkId e" "''0x'' @ sha3_hex e src" "optimizerEnabled e"]
    by blast+
  from h have kn: "k \<noteq> ''networks''" by blast
  have new: "map_of (own_fields a) k = map_of (spread (Some prior)) k"
    unfolding art f using newArtifact_fields [OF cs kn] ca by (simp only:)
  have sp: "spread (Some prior) = filter (\<lambda>kv. fst kv \<noteq> ''__proto__'') (own_fields prior)"
    by (rule spread.simps)
  from new sp
  have flt: "map_of (own_fields a) k
      = map_of (filter (\<lambda>kv. fst kv \<noteq> ''__proto__'') (own_fields prior)) k"
    by (simp only:)
  show "(\<forall>v. map_of (own_fields a) k = Some v \<longrightarrow> map_of (own_fields prior) k = Some v)
       \<and> (k \<noteq> ''__proto__'' \<longrightarrow> map_of (own_fields a) k = map_of (own_fields prior) k)"
  proof (cases "k = ''__proto__''")
    case True
    have "map_of (filter (\<lambda>kv. fst kv \<noteq> ''__proto__'') (own_fields prior)) k = None"
      unfolding True by (rule map_of_filter_dropped)
    with flt have "map_of (own_fields a) k = None" by (rule trans)
    with True show ?thesis by simp
  next
    case False
    have "map_of (filter (\<lambda>kv. fst kv \<noteq> ''__proto__'') (own_fields prior)) k
        = map_of (own_fields prior) k"
      by (rule map_of_filter_key [OF False])
    with flt have "map_of (own_fields a) k = map_of (own_fields prior) k" by (rule trans)
    then show ?thesis by simp
  qed
qed

theorem new_artifact_fields_from_prior_witness:
  "map_of (own_fields (JObj [(''contract_name'', JStr ''Foo''),
       (''networks'', JObj [(''1'', JObj [(''solc_version'', JStr ''0.4.11''),
              (''keccak256'', JStr ''0x01''), (''optimizer_enabled'', JNum 0)]),
          (''50'', contractData ''0.4.11'' ''0xab12'' 0 (JArr []) ''0x60'' 1500000000000)])]))
     ''contract_name'' = Some (JStr ''Foo'')"
proof -
  let ?a = "JObj [(''contract_name'', JStr ''Foo''),
       (''networks'', JObj [(''1'', JObj [(''solc_version'', JStr ''0.4.11''),
              (''keccak256'', JStr ''0x01''), (''optimizer_enabled'', JNum 0)]),
          (''50'', contractData ''0.4.11'' ''0xab12'' 0 (JArr []) ''0x60'' 1500000000000)])]"
  have "\<exists>st1. resume example_env [(''Foo.sol'', example_source)] (AwaitRead ''Foo.sol'' example_source)
        example_prior_state = (AwaitWrite ''Foo.sol'' ''artifacts/Foo.json'' ?a, st1)"
    by (simp add: eval_defs)
  then obtain st1 where r: "resume example_env [(''Foo.sol'', example_source)]
      (AwaitRead ''Foo.sol'' example_source) example_prior_state
      = (AwaitWrite ''Foo.sol'' ''artifacts/Foo.json'' ?a, st1)" by blast
  have f: "files example_prior_state (currentArtifactPath example_env ''Foo.sol'')
      = Some (Parsed example_prior)"
    by (simp add: eval_defs)
  have k: "''contract_name'' \<noteq> ''networks''" "''contract_name'' \<noteq> ''__proto__''" by simp_all
  from new_artifact_fields_from_prior [of example_env "[(''Foo.sol'', example_source)]" "''Foo.sol''"
      example_source example_prior_state "''artifacts/Foo.json''" ?a st1 example_prior
      "''contract_name''"] r f k
  have "map_of (own_fields ?a) ''contract_name'' = map_of (own_fields example_prior) ''contract_name''"
    by blast
  also have "\<dots> = Some (JStr ''Foo'')" by (simp add: example_prior_def)
  finally show ?thesis .
qed

section \<open>The import callback and the completion of compileAll\<close>

lemma basename_plain:
  assumes "CHR ''/'' \<notin> set name" "name \<noteq> []"
  shows "basename (dir @ ''/'' @ name) = name" "basename name = name"
proof -
  from assms obtain x r where r: "rev name = x # r" by (cases "rev name") auto
  with assms(1) have x: "x \<noteq> CHR ''/''" by (metis list.set_intros(1) set_rev)
  have all: "takeWhile (\<lambda>c. c \<noteq> CHR ''/'') (rev name) = rev name"
    using assms(1) by (auto simp: takeWhile_eq_all_conv)
  have t: "takeWhile (\<lambda>c. c \<noteq> CHR ''/'') (rev name @ CHR ''/'' # rev dir)
      = takeWhile (\<lambda>c. c \<noteq> CHR ''/'') (rev name)"
    by (rule takeWhile_tail) simp
  have d: "dropWhile (\<lambda>c. c = CHR ''/'') (rev name @ z) = rev name @ z" for z
    using r x by simp
  have d0: "dropWhile (\<lambda>c. c = CHR ''/'') (rev name) = rev name"
    using d [of "[]"] by simp
  have rv: "rev (dir @ ''/'' @ name) = rev name @ CHR ''/'' # rev dir" by simp
  show "basename (dir @ ''/'' @ name) = name"
    by (simp only: basename_def rv d t all rev_rev_ident)
  show "basename name = name"
    by (simp only: basename_def d0 all rev_rev_ident)
qed

text \<open>
  What the callback does for every mapping and path: it strips any directory prefix and
  looks the path up by base name only; a base name the mapping holds gives its text; a base
  name that the mapping does not hold, and that is no member name of \<^verbatim>\<open>Object.prototype\<close>,
  gives missing contents. The callback is a function of the mapping and the path: it has no
  store to write to.
\<close>

lemma find_imports_by_base_name:
  "(CHR ''/'' \<notin> set name \<and> name \<noteq> [] \<longrightarrow>
      createFindImports sources (dir @ ''/'' @ name) = createFindImports sources name)
   \<and> (map_of sources (basename importPath) = Some text \<longrightarrow>
        contents (createFindImports sources importPath) = Own text)
   \<and> (map_of sources (basename importPath) = None
        \<and> basename importPath \<notin> set object_prototype_names \<longrightarrow>
        contents (createFindImports sources importPath) = Undefined)"
proof (intro conjI impI)
  assume "CHR ''/'' \<notin> set name \<and> name \<noteq> []"
  then have "basename (dir @ ''/'' @ name) = basename name"
    using basename_plain(1) [of name dir] basename_plain(2) [of name] by simp
  then show "createFindImports sources (dir @ ''/'' @ name) = createFindImports sources name"
    by (simp add: createFindImports_def)
next
  assume "map_of sources (basename importPath) = Some text"
  then show "contents (createFindImports sources importPath) = Own text"
    by (simp add: createFindImports_def js_get_def)
next
  assume "map_of sources (basename importPath) = None
      \<and> basename importPath \<notin> set object_prototype_names"
  then show "contents (createFindImports sources importPath) = Undefined"
    by (simp add: createFindImports_def js_get_def)
qed

lemma find_imports_by_base_name_example:
  "createFindImports [(''A.sol'', ''contract A {}'')] (''./lib'' @ ''/'' @ ''A.sol'')
     = createFindImports [(''A.sol'', ''contract A {}'')] ''A.sol''
   \<and> contents (createFindImports [(''A.sol'', ''contract A {}'')] ''./lib/A.sol'') = Own ''contract A {}''
   \<and> contents (createFindImports [(''A.sol'', ''contract A {}'')] ''./lib/B.sol'') = Undefined"
proof -
  have h1: "CHR ''/'' \<notin> set ''A.sol'' \<and> ''A.sol'' \<noteq> []" by simp
  have h2: "map_of [(''A.sol'', ''contract A {}'')] (basename ''./lib/A.sol'') = Some ''contract A {}''"
    by (simp add: basename_def)
  have h3: "map_of ([(''A.sol'', ''contract A {}'')] :: ContractSources) (basename ''./lib/B.sol'') = None
      \<and> basename ''./lib/B.sol'' \<notin> set object_prototype_names"
    by (simp add: basename_def object_prototype_names_def)
  from find_imports_by_base_name [of "''A.sol''" "[(''A.sol'', ''contract A {}'')]" "''./lib''"
      "''./lib/A.sol''" "''contract A {}''"] h1 h2
  have a: "createFindImports [(''A.sol'', ''contract A {}'')] (''./lib'' @ ''/'' @ ''A.sol'')
     = createFindImports [(''A.sol'', ''contract A {}'')] ''A.sol''"
    and b: "contents (createFindImports [(''A.sol'', ''contract A {}'')] ''./lib/A.sol'') = Own ''contract A {}''"
    by blast+
  from find_imports_by_base_name [of "''A.sol''" "[(''A.sol'', ''contract A {}'')]" "''./lib''"
      "''./lib/B.sol''" "''contract A {}''"] h3
  have c: "contents (createFindImports [(''A.sol'', ''contract A {}'')] ''./lib/B.sol'') = Undefined"
    by blast
  from a b c show ?thesis by blast
qed

text \<open>
  Claim C8. The claim is what the callback is meant to do and does not do for every path.
  The captured mapping is an object read with \<^verbatim>\<open>sources[contractBaseName]\<close> and no
  own-property check: for a base name that the mapping does not hold but
  \<^verbatim>\<open>Object.prototype\<close> does, such as \<^verbatim>\<open>toString\<close>, the contents returned are the inherited
  member, not missing contents.
\<close>

theorem inherited_name_is_not_missing:
  "map_of ([(''A.sol'', ''contract A {}'')] :: ContractSources) (basename ''./lib/toString'') = None
   \<and> contents (createFindImports [(''A.sol'', ''contract A {}'')] ''./lib/toString'')
       = Inherited ''toString''
   \<and> contents (createFindImports [(''A.sol'', ''contract A {}'')] ''./lib/toString'') \<noteq> Undefined"
  by (simp add: createFindImports_def basename_def js_get_def object_prototype_names_def)

text \<open>
  Claim C3. The claim is what the script is meant to do and does not do. When
  \<^verbatim>\<open>compileAll\<close> returns, no unit task is settled: each is suspended at its first
  \<^verbatim>\<open>await\<close>, no artifact has been written and no backend has been called.
\<close>

theorem compileAll_returns_with_tasks_pending:
  "sources \<noteq> [] \<longrightarrow>
     tasks (compileAll e sources st) \<noteq> []
     \<and> (\<forall>t \<in> set (tasks (compileAll e sources st)). \<not> settled t)
     \<and> files (compileAll e sources st) = files st
     \<and> backend_calls (compileAll e sources st) = backend_calls st"
  by (auto simp: compileAll_def)

theorem compileAll_returns_with_tasks_pending_witness:
  "tasks (compileAll example_env [(''Foo.sol'', example_source)] example_state)
     = [AwaitRead ''Foo.sol'' example_source]
   \<and> \<not> settled (AwaitRead ''Foo.sol'' example_source)
   \<and> files (compileAll example_env [(''Foo.sol'', example_source)] example_state)
       ''artifacts/Foo.json'' = None
   \<and> tasks (step example_env [(''Foo.sol'', example_source)] 0
        (compileAll example_env [(''Foo.sol'', example_source)] example_state)) \<noteq> [Fulfilled]"
proof -
  have h: "[(''Foo.sol'', example_source)] \<noteq> []" by simp
  from compileAll_returns_with_tasks_pending [of "[(''Foo.sol'', example_source)]" example_env
      example_state] h
  have "files (compileAll example_env [(''Foo.sol'', example_source)] example_state)
      = files example_state" by blast
  then have "files (compileAll example_env [(''Foo.sol'', example_source)] example_state)
       ''artifacts/Foo.json'' = None" by (simp add: example_state_def)
  moreover have "tasks (compileAll example_env [(''Foo.sol'', example_source)] example_state)
     = [AwaitRead ''Foo.sol'' example_source]" by (simp add: compileAll_def)
  moreover have "tasks (step example_env [(''Foo.sol'', example_source)] 0
        (compileAll example_env [(''Foo.sol'', example_source)] example_state)) \<noteq> [Fulfilled]"
    by (simp add: step_def compileAll_def eval_defs)
  ultimately show ?thesis by simp
qed

section \<open>The deduplication claim\<close>

text \<open>
  Where the script does what it is meant to do. Two diagnostics that differ only in the
  directory prefix in front of the source-file name, where the prefixes and the name hold no
  line break and the text holds no \<^verbatim>\<open>$&\<close>, normalise to the same message; and in a run,
  whatever the order in which the file operations of the unit tasks complete, the diagnostics
  logged are pairwise different: a normalised message reaches the sink at most once.
\<close>

lemma diagnostics_deduplicated:
  "(directory_prefix d1 \<and> directory_prefix d2 \<and> list_all (\<lambda>c. \<not> line_terminator c) name
      \<and> \<not> has_dollar_amp (name @ ''.sol'' @ r) \<longrightarrow>
      getNormalizedErrMsg (d1 @ name @ ''.sol'' @ r) = getNormalizedErrMsg (d2 @ name @ ''.sol'' @ r)
      \<and> (\<exists>m. getNormalizedErrMsg (d1 @ name @ ''.sol'' @ r) = Inr m))
   \<and> distinct (diagnostics (drop (length (log st))
         (log (run_schedule e sources sched (compileAll e sources st)))))"
proof (rule conjI)
  show "distinct (diagnostics (drop (length (log st))
         (log (run_schedule e sources sched (compileAll e sources st)))))"
    by (rule run_diagnostics_distinct)
  show "directory_prefix d1 \<and> directory_prefix d2 \<and> list_all (\<lambda>c. \<not> line_terminator c) name
      \<and> \<not> has_dollar_amp (name @ ''.sol'' @ r) \<longrightarrow>
      getNormalizedErrMsg (d1 @ name @ ''.sol'' @ r) = getNormalizedErrMsg (d2 @ name @ ''.sol'' @ r)
      \<and> (\<exists>m. getNormalizedErrMsg (d1 @ name @ ''.sol'' @ r) = Inr m)"
  proof
    assume a: "directory_prefix d1 \<and> directory_prefix d2
        \<and> list_all (\<lambda>c. \<not> line_terminator c) name \<and> \<not> has_dollar_amp (name @ ''.sol'' @ r)"
    then have assms: "directory_prefix d1" "directory_prefix d2"
        "list_all (\<lambda>c. \<not> line_terminator c) name" "\<not> has_dollar_amp (name @ ''.sol'' @ r)"
      by simp_all
    show "getNormalizedErrMsg (d1 @ name @ ''.sol'' @ r) = getNormalizedErrMsg (d2 @ name @ ''.sol'' @ r)
      \<and> (\<exists>m. getNormalizedErrMsg (d1 @ name @ ''.sol'' @ r) = Inr m)"
    proof -
      let ?s = "name @ ''.sol'' @ r"
      from star_dot_sol_here [of r] obtain m0 where "star_dot_sol (''.sol'' @ r) = Some m0" by blast
      from star_dot_sol_prepend [OF assms(3) this] obtain m where m: "star_dot_sol ?s = Some m" by blast
      from star_dot_sol_prefix [OF m] obtain rest where s: "?s = m @ rest" by blast
      from basename_infix [of m] obtain a c where b: "m = a @ basename m @ c" by blast
      have "\<not> has_dollar_amp (basename m)"
      proof
        assume "has_dollar_amp (basename m)"
        then have "has_dollar_amp (basename m @ c @ rest)" by (rule has_dollar_amp_append_right)
        then have "has_dollar_amp (a @ basename m @ c @ rest)" by (rule has_dollar_amp_append_left)
        moreover have "?s = a @ basename m @ c @ rest" using s b by (metis append.assoc)
        ultimately show False using assms(4) by simp
      qed
      then have e: "expand (d1 @ m) [] rest (basename m) = expand (d2 @ m) [] rest (basename m)"
        by (rule expand_matched_irrelevant)
      show ?thesis
        unfolding normalized_prefix_form [OF assms(1) m s] normalized_prefix_form [OF assms(2) m s] e
        by simp
    qed
  qed
qed

lemma diagnostics_deduplicated_example:
  "getNormalizedErrMsg (''sub/dir/'' @ ''A'' @ ''.sol'' @ '':3: Warning: x'')
     = getNormalizedErrMsg (''other/'' @ ''A'' @ ''.sol'' @ '':3: Warning: x'')
   \<and> getNormalizedErrMsg ''other/A.sol:3: Warning: x'' = Inr ''A.sol:3: Warning: x''
   \<and> diagnostics (log (run_schedule example_env [(''Foo.sol'', example_source)] [0, 0]
        (compileAll example_env [(''Foo.sol'', example_source)] example_state)))
       = [''Foo.sol:3: Warning: x'']"
proof -
  have h: "directory_prefix ''sub/dir/'' \<and> directory_prefix ''other/''
      \<and> list_all (\<lambda>c. \<not> line_terminator c) ''A''
      \<and> \<not> has_dollar_amp (''A'' @ ''.sol'' @ '':3: Warning: x'')"
    by (simp add: directory_prefix_def line_terminator_def)
  from diagnostics_deduplicated [of "''sub/dir/''" "''other/''" "''A''" "'':3: Warning: x''"] h
  have "getNormalizedErrMsg (''sub/dir/'' @ ''A'' @ ''.sol'' @ '':3: Warning: x'')
     = getNormalizedErrMsg (''other/'' @ ''A'' @ ''.sol'' @ '':3: Warning: x'')"
    by blast
  moreover have "getNormalizedErrMsg ''other/A.sol:3: Warning: x'' = Inr ''A.sol:3: Warning: x''"
    by (simp add: getNormalizedErrMsg_def replace_first_def line_terminator_def basename_def)
  moreover have "diagnostics (log (run_schedule example_env [(''Foo.sol'', example_source)] [0, 0]
        (compileAll example_env [(''Foo.sol'', example_source)] example_state)))
       = [''Foo.sol:3: Warning: x'']"
    by (simp add: step_def compileAll_def eval_defs)
  ultimately show ?thesis by blast
qed

text \<open>
  Claim C7. The claim is what \<^verbatim>\<open>getNormalizedErrMsg\<close> is documented to do (it returns
  \<^verbatim>\<open>The error message with directories truncated from the contract path\<close>) and does not do
  for every path. The base name is handed to \<^verbatim>\<open>String.prototype.replace\<close> as the
  replacement text, in which \<^verbatim>\<open>$&\<close> stands for the matched path, directory prefix
  included: for a file named \<^verbatim>\<open>a$&.sol\<close> the directories come back, and two diagnostics
  that differ only in the directory prefix keep different messages.
\<close>

theorem dollar_amp_keeps_directory:
  "getNormalizedErrMsg ''sub/dir/a$&.sol:3: Warning: x'' = Inr ''asub/dir/a$&.sol.sol:3: Warning: x''
   \<and> getNormalizedErrMsg ''other/a$&.sol:3: Warning: x'' = Inr ''aother/a$&.sol.sol:3: Warning: x''
   \<and> getNormalizedErrMsg ''sub/dir/a$&.sol:3: Warning: x''
       \<noteq> getNormalizedErrMsg ''other/a$&.sol:3: Warning: x''"
  by (simp add: getNormalizedErrMsg_def replace_first_def line_terminator_def basename_def)

section \<open>The unsupported-version claim\<close>




section \<open>The idempotence claim\<close>

text \<open>
  Claim C4, as stated, fails: a unit for which the backend produces no contract is rejected
  after the backend call and leaves no artifact, so the second run calls the backend for it
  again.
\<close>

theorem failed_unit_is_compiled_again:
  "backend_calls (run_schedule example_env example_failing_units [0, 1, 1]
       (compileAll example_env example_failing_units example_state))
     = [''Qux.sol'', ''Foo.sol'']
   \<and> tasks (run_schedule example_env example_failing_units [0, 1, 1]
       (compileAll example_env example_failing_units example_state))
     = [Rejected TypeError, Fulfilled]
   \<and> backend_calls (run_schedule example_env example_failing_units [0, 1]
       (compileAll example_env example_failing_units
         (run_schedule example_env example_failing_units [0, 1, 1]
           (compileAll example_env example_failing_units example_state))))
     = [''Qux.sol'', ''Foo.sol'', ''Qux.sol'']"
  by (simp add: step_def compileAll_def example_failing_units_def eval_defs)

text \<open>
  Claim C4, amended. Let the orchestrator run twice in succession over the same sources with
  the same options, the second run starting from the state the first one left, and let the
  artifact paths of the units be pairwise different. Whatever the order in which the file
  operations complete in either run, the second run calls the backend for no unit whose task
  was fulfilled in the first run; when every task was fulfilled in the first run, the second
  run performs no backend call and writes no file.
\<close>

theorem second_run_skips_built_units:
  "distinct (map (\<lambda>u. currentArtifactPath e (fst u)) sources)
   \<and> st1 = run_schedule e sources sched1 (compileAll e sources st0)
   \<and> st2 = run_schedule e sources sched2 (compileAll e sources st1)
   \<longrightarrow> (\<forall>i < length sources. tasks st1 ! i = Fulfilled \<longrightarrow>
          fst (sources ! i) \<notin> set (drop (length (backend_calls st1)) (backend_calls st2)))
       \<and> ((\<forall>i < length sources. tasks st1 ! i = Fulfilled) \<longrightarrow>
            backend_calls st2 = backend_calls st1 \<and> files st2 = files st1)"
proof
  assume a: "distinct (map (\<lambda>u. currentArtifactPath e (fst u)) sources)
   \<and> st1 = run_schedule e sources sched1 (compileAll e sources st0)
   \<and> st2 = run_schedule e sources sched2 (compileAll e sources st1)"
  then have d: "distinct (map (\<lambda>u. currentArtifactPath e (fst u)) sources)"
    and st1: "st1 = run_schedule e sources sched1 (compileAll e sources st0)"
    and st2: "st2 = run_schedule e sources sched2 (compileAll e sources st1)" by simp_all
  have b1: "built e sources st1"
    unfolding st1 by (rule built_run [OF d built_compileAll])
  have "skipping e sources st1 st2"
    unfolding st2 by (rule skipping_run [OF d skipping_compileAll [OF b1]])
  then obtain new where new: "backend_calls st2 = backend_calls st1 @ new"
    "\<And>i. i < length sources \<Longrightarrow> tasks st1 ! i = Fulfilled \<Longrightarrow> fst (sources ! i) \<notin> set new"
    unfolding skipping_def by blast
  from new(1) have "drop (length (backend_calls st1)) (backend_calls st2) = new" by simp
  with new(2) have part1: "\<forall>i < length sources. tasks st1 ! i = Fulfilled \<longrightarrow>
      fst (sources ! i) \<notin> set (drop (length (backend_calls st1)) (backend_calls st2))"
    by simp
  have part2: "backend_calls st2 = backend_calls st1 \<and> files st2 = files st1"
    if all: "\<forall>i < length sources. tasks st1 ! i = Fulfilled"
  proof -
    have fr: "fresh e (snd (sources ! i)) (files st1 (currentArtifactPath e (fst (sources ! i))))"
      if "i < length sources" for i
      using b1 all that by (cases "sources ! i") (auto simp: built_def)
    have "idle sources st1 st2"
      unfolding st2 by (rule idle_run [OF fr idle_compileAll])
    then show ?thesis by (simp add: idle_def)
  qed
  from part1 part2 show "(\<forall>i < length sources. tasks st1 ! i = Fulfilled \<longrightarrow>
          fst (sources ! i) \<notin> set (drop (length (backend_calls st1)) (backend_calls st2)))
       \<and> ((\<forall>i < length sources. tasks st1 ! i = Fulfilled) \<longrightarrow>
            backend_calls st2 = backend_calls st1 \<and> files st2 = files st1)"
    by blast
qed

theorem second_run_skips_built_units_witness:
  "''Foo.sol'' \<notin> set (drop
       (length (backend_calls (run_schedule example_env example_failing_units [0, 1, 1]
          (compileAll example_env example_failing_units example_state))))
       (backend_calls (run_schedule example_env example_failing_units [1, 0]
          (compileAll example_env example_failing_units
            (run_schedule example_env example_failing_units [0, 1, 1]
              (compileAll example_env example_failing_units example_state))))))
   \<and> backend_calls (run_schedule example_env [(''Foo.sol'', example_source)] [0]
        (compileAll example_env [(''Foo.sol'', example_source)]
          (run_schedule example_env [(''Foo.sol'', example_source)] [0, 0]
            (compileAll example_env [(''Foo.sol'', example_source)] example_state))))
     = backend_calls (run_schedule example_env [(''Foo.sol'', example_source)] [0, 0]
            (compileAll example_env [(''Foo.sol'', example_source)] example_state))"
proof -
  let ?st1 = "run_schedule example_env example_failing_units [0, 1, 1]
      (compileAll example_env example_failing_units example_state)"
  let ?st2 = "run_schedule example_env example_failing_units [1, 0]
      (compileAll example_env example_failing_units ?st1)"
  have d: "distinct (map (\<lambda>u. currentArtifactPath example_env (fst u)) example_failing_units)"
    by (simp add: example_failing_units_def eval_defs)
  have t: "(1::nat) < length example_failing_units" "tasks ?st1 ! 1 = Fulfilled"
    "fst (example_failing_units ! 1) = ''Foo.sol''"
    by (simp_all add: step_def compileAll_def example_failing_units_def eval_defs)
  from second_run_skips_built_units [of example_env example_failing_units ?st1 "[0, 1, 1]"
      example_state ?st2 "[1, 0]"] d
  have "\<forall>i < length example_failing_units. tasks ?st1 ! i = Fulfilled \<longrightarrow>
      fst (example_failing_units ! i) \<notin> set (drop (length (backend_calls ?st1)) (backend_calls ?st2))"
    by blast
  with t have a: "''Foo.sol'' \<notin> set (drop (length (backend_calls ?st1)) (backend_calls ?st2))"
    by metis
  let ?u = "[(''Foo.sol'', example_source)]"
  let ?s1 = "run_schedule example_env ?u [0, 0] (compileAll example_env ?u example_state)"
  let ?s2 = "run_schedule example_env ?u [0] (compileAll example_env ?u ?s1)"
  have d': "distinct (map (\<lambda>u. currentArtifactPath example_env (fst u)) ?u)" by simp
  have all: "\<forall>i < length ?u. tasks ?s1 ! i = Fulfilled"
    by (simp add: step_def compileAll_def eval_defs)
  from second_run_skips_built_units [of example_env ?u ?s1 "[0, 0]" example_state ?s2 "[0]"] d' all
  have b: "backend_calls ?s2 = backend_calls ?s1" by blast
  from a b show ?thesis by blast
qed

section \<open>The version-resolution claim\<close>




section \<open>The long-component claim\<close>

text \<open>
  Claim C10, as stated, fails: the pattern has no anchor behind the patch component, so a patch
  of three digits is read up to its second digit and resolution succeeds.
\<close>

theorem long_patch_resolves:
  "parseSolidityVersion ''pragma solidity ^4.11.000;'' = Inr ''4.11.00''
   \<and> parseSolidityVersion ''pragma solidity ^4.11.000;'' \<noteq> Inl VersionNotFound"
  by (simp add: parseSolidityVersion_def match_here_def match_version_def
      version_alternatives_def dot_digits_def is_digit_def is_space_def)

text \<open>
  Claim C10, amended. For every source whose only version declaration has a major or a minor
  component of three or more digits, resolution fails with \<open>VersionNotFound\<close>: the text
  ahead of it and the text behind it hold no declaration, and the declaration is the word, one
  white-space character, an optional caret and digit runs separated by full stops.
\<close>

theorem long_component_not_found:
  assumes "\<not> declares_version pre" "\<not> declares_version post"
    "is_space w" "c = [] \<or> c = ''^''"
    "list_all is_digit M" "list_all is_digit m" "list_all is_digit p"
    "3 \<le> length M \<or> 3 \<le> length m"
  shows "parseSolidityVersion (pre @ ''solidity'' @ [w] @ c @ M @ ''.'' @ m @ ''.'' @ p @ post)
           = Inl VersionNotFound"
proof -
  let ?tail = "''olidity'' @ [w] @ c @ M @ ''.'' @ m @ ''.'' @ p"
  have ns: "\<not> pattern_char (CHR ''s'')" by (simp add: pattern_char_def is_space_def is_digit_def)
  have "version_search (pre @ CHR ''s'' # ?tail @ post) = version_search (CHR ''s'' # ?tail @ post)"
    by (rule version_search_skip [OF ns assms(1)])
  also have "\<dots> = version_search (?tail @ post)"
    using match_here_long [OF assms(3,4,5,6,8), of "p @ post"] by simp
  also have "\<dots> = version_search post"
  proof (rule version_search_skip_chars)
    have "w \<noteq> CHR ''s''" using assms(3) by (auto simp: is_space_def)
    moreover have "CHR ''s'' \<notin> set c" using assms(4) by auto
    ultimately show "CHR ''s'' \<notin> set ?tail"
      using digits_no_s [OF assms(5)] digits_no_s [OF assms(6)] digits_no_s [OF assms(7)]
      by simp
  qed
  also have "\<dots> = None" using assms(2) version_search_iff [of post] by auto
  finally show ?thesis by (simp add: parseSolidityVersion_def)
qed

theorem long_component_not_found_witness:
  "parseSolidityVersion ''pragma solidity ^4.110.0;'' = Inl VersionNotFound"
proof -
  have h1: "\<not> declares_version ''pragma ''"
    unfolding version_search_iff [symmetric] by (simp add: match_here_def)
  have h2: "\<not> declares_version '';''"
    unfolding version_search_iff [symmetric] by (simp add: match_here_def)
  have h3: "is_space (CHR '' '')" by (simp add: is_space_def)
  have h4: "list_all is_digit ''4''" "list_all is_digit ''110''" "list_all is_digit ''0''"
    by (simp_all add: is_digit_def)
  from long_component_not_found [OF h1 h2 h3 _ h4, of "''^''"]
  show ?thesis by simp
qed

end
